theory Spec2Isabelle
  imports Main
begin

section \<open>Archived tabs (utils.js)\<close>

text \<open>
  An archived tab record \<open>{url, name, spaceId, archivedAt}\<close>. A missing or empty
  string field is the empty string, a missing space id is \<open>0\<close>: exactly the values the
  guard \<open>!tabData.url || !tabData.name || !tabData.spaceId\<close> rejects.
\<close>

record archived_tab =
  at_url :: string
  at_name :: string
  at_spaceId :: int
  at_archivedAt :: int

definition MAX_ARCHIVED_TABS :: nat where
  "MAX_ARCHIVED_TABS = 100"

text \<open>
  \<open>archivedTabs.sort((a, b) => b.archivedAt - a.archivedAt)\<close>: a stable sort, newest
  first. \<open>sort_key\<close> is the stable insertion sort of the library.
\<close>

definition sortNewestFirst :: "archived_tab list \<Rightarrow> archived_tab list" where
  "sortNewestFirst ts = sort_key (\<lambda>t. - at_archivedAt t) ts"

text \<open>
  \<open>Utils.addArchivedTab\<close>. The storage content is passed in and the content written
  back is returned; on each early return nothing is written, so the content is returned as
  it was. \<open>now\<close> is the value of \<open>Date.now()\<close>; \<open>None\<close> is a null \<open>tabData\<close>.
\<close>

definition addArchivedTab ::
  "int \<Rightarrow> archived_tab option \<Rightarrow> archived_tab list \<Rightarrow> archived_tab list" where
  "addArchivedTab now tabData archivedTabs =
     (case tabData of
        None \<Rightarrow> archivedTabs
      | Some d \<Rightarrow>
          if at_url d = [] \<or> at_name d = [] \<or> at_spaceId d = 0 then archivedTabs
          else if List.find (\<lambda>t. at_url t = at_url d) archivedTabs \<noteq> None then archivedTabs
          else
            let newArchiveEntry = d\<lparr>at_archivedAt := now\<rparr>;
                pushed = archivedTabs @ [newArchiveEntry];
                sorted = sortNewestFirst pushed
            in if length sorted > MAX_ARCHIVED_TABS then take MAX_ARCHIVED_TABS sorted
               else sorted)"

text \<open>The records dropped by the \<open>splice\<close> of a successful add.\<close>

definition evictedBy ::
  "int \<Rightarrow> archived_tab \<Rightarrow> archived_tab list \<Rightarrow> archived_tab list" where
  "evictedBy now d archivedTabs =
     drop MAX_ARCHIVED_TABS (sortNewestFirst (archivedTabs @ [d\<lparr>at_archivedAt := now\<rparr>]))"

definition validTabData :: "archived_tab \<Rightarrow> bool" where
  "validTabData d \<longleftrightarrow> at_url d \<noteq> [] \<and> at_name d \<noteq> [] \<and> at_spaceId d \<noteq> 0"

definition urlArchived :: "string \<Rightarrow> archived_tab list \<Rightarrow> bool" where
  "urlArchived u archivedTabs \<longleftrightarrow> List.find (\<lambda>t. at_url t = u) archivedTabs \<noteq> None"

text \<open>An archive at the cap, every record stamped 5000, with pairwise different URLs.\<close>

definition fullArchive :: "archived_tab list" where
  "fullArchive =
     map (\<lambda>i. \<lparr>at_url = ''https://site.example/'' @ replicate i (CHR ''p''),
               at_name = ''page'', at_spaceId = 1, at_archivedAt = 5000\<rparr>) [0..<100]"

definition lateTab :: archived_tab where
  "lateTab = \<lparr>at_url = ''https://new.example/'', at_name = ''new'', at_spaceId = 1,
              at_archivedAt = 0\<rparr>"

section \<open>The space model and the host's tab strip\<close>

text \<open>
  A host tab as \<open>chrome.tabs.query\<close> returns it: id, group, host-level pinned flag, URL.
  Its \<open>index\<close> is its position in the window's tab strip, the list \<open>host_tabs\<close> below.
\<close>

record tab =
  tab_id :: int
  tab_groupId :: int
  tab_pinned :: bool
  tab_url :: string

text \<open>
  A space of the \<open>spaces\<close> array. A missing array (\<open>space.spaceBookmarks ?? []\<close>) is the
  empty list; \<open>lastTab\<close> is \<open>None\<close> for \<open>null\<close>.
\<close>

record space =
  space_id :: int
  space_name :: string
  spaceBookmarks :: "int list"
  temporaryTabs :: "int list"
  lastTab :: "int option"

datatype source = Arcify | Chrome

text \<open>The options of \<open>reconcileSpaceTabOrdering\<close>, with their defaults filled in.\<close>

record opts =
  opt_source :: source
  opt_movedTabId :: "int option"
  opt_retryAttempt :: nat

text \<open>An entry of \<open>reconcileRetryBySpace\<close>, and a timer that \<open>setTimeout\<close> has pending.\<close>

record retry_entry =
  re_timeoutId :: nat
  re_attempt :: nat
  re_opts :: opts

record timer =
  tm_id :: nat
  tm_spaceId :: int
  tm_opts :: opts
  tm_delayMs :: nat

datatype log_event = LogInfo string | LogWarn string | LogError string

text \<open>
  The module-level state of the sidebar and the stores it writes to: the \<open>spaces\<close> array,
  the host's tab strip, each value \<open>saveSpaces\<close> wrote to storage, the temporary-tab
  container of each rendered space (its rows' tab ids, top to bottom), the
  \<open>syncingToChrome\<close> set with the pending expiries of its marks, the retry map with the
  pending retry timers, the \<open>chrome.tabs.move\<close> calls issued, and the log.
\<close>

record app_state =
  spaces :: "space list"
  host_tabs :: "tab list"
  storage_writes :: "space list list"
  dom_temp :: "int \<Rightarrow> int list option"
  syncingToChrome :: "int set"
  syncing_expiries :: "int list list"
  reconcileRetryBySpace :: "int \<Rightarrow> retry_entry option"
  timers :: "timer list"
  next_timer :: nat
  move_calls :: "(int list \<times> nat) list"
  logs :: "log_event list"

text \<open>What the host answers to a \<open>chrome.tabs.move\<close>: it moves the tabs, or rejects with a message.\<close>

datatype move_outcome = Accepted | Rejected string

datatype call_result = Returned | Threw string

subsection \<open>Array helpers\<close>

text \<open>\<open>uniqPreserveOrder\<close>: falsy ids (\<open>0\<close>) are skipped, the first occurrence of each id is kept.\<close>

fun uniqFrom :: "int set \<Rightarrow> int list \<Rightarrow> int list" where
  "uniqFrom seen [] = []"
| "uniqFrom seen (x # xs) =
     (if x = 0 then uniqFrom seen xs
      else if x \<in> seen then uniqFrom seen xs
      else x # uniqFrom (insert x seen) xs)"

definition uniqPreserveOrder :: "int list \<Rightarrow> int list" where
  "uniqPreserveOrder ids = uniqFrom {} ids"

text \<open>\<open>Array.prototype.findIndex\<close> and \<open>indexOf\<close>: \<open>-1\<close> when there is no such element.\<close>

primrec findIndex :: "('a \<Rightarrow> bool) \<Rightarrow> 'a list \<Rightarrow> int" where
  "findIndex P [] = - 1"
| "findIndex P (x # xs) =
     (if P x then 0 else (let r = findIndex P xs in if r = - 1 then - 1 else r + 1))"

definition indexOf :: "'a list \<Rightarrow> 'a \<Rightarrow> int" where
  "indexOf xs v = findIndex (\<lambda>x. x = v) xs"

text \<open>\<open>String.prototype.includes\<close>.\<close>

primrec includes_str :: "string \<Rightarrow> string \<Rightarrow> bool" where
  "includes_str [] sub = (sub = [])"
| "includes_str (c # cs) sub = (take (length sub) (c # cs) = sub \<or> includes_str cs sub)"

text \<open>The first space with the given id is the object that \<open>spaces.find\<close> returns and the code mutates.\<close>

fun updateSpace :: "int \<Rightarrow> (space \<Rightarrow> space) \<Rightarrow> space list \<Rightarrow> space list" where
  "updateSpace sid f [] = []"
| "updateSpace sid f (s # ss) = (if space_id s = sid then f s # ss else s # updateSpace sid f ss)"

subsection \<open>The Host Browser Service\<close>

text \<open>
  \<open>chrome.tabs.query({ groupId })\<close>: the tabs of the group, each with its index in the tab
  strip.
\<close>

definition tabs_query_group :: "int \<Rightarrow> tab list \<Rightarrow> (nat \<times> tab) list" where
  "tabs_query_group gid ts = filter (\<lambda>(i, t). tab_groupId t = gid) (enumerate 0 ts)"

text \<open>
  Modelled from the spec: the Host Browser Service is an external collaborator, of which
  the repository holds only the calls. Its "tab move-by-id-list-to-index" (section 6),
  which the reconciler uses as "a single batched move of all ids to the group's starting
  index", takes the tabs one after another: the k-th tab of the list is taken out of the
  strip and put back so that it ends at position \<open>index + k\<close> (the last position when that
  is beyond the strip). A tab keeps its group and its pinned flag; an id that is not in
  the strip moves nothing.
\<close>

definition move_one :: "int \<Rightarrow> nat \<Rightarrow> tab list \<Rightarrow> tab list" where
  "move_one d i ts =
     (case dropWhile (\<lambda>t. tab_id t \<noteq> d) ts of
        [] \<Rightarrow> ts
      | t # after \<Rightarrow>
          let rest = takeWhile (\<lambda>t. tab_id t \<noteq> d) ts @ after;
              j = (if i \<ge> length ts then length ts - 1 else i)
          in take j rest @ t # drop j rest)"

fun host_move :: "int list \<Rightarrow> nat \<Rightarrow> tab list \<Rightarrow> tab list" where
  "host_move [] i ts = ts"
| "host_move (d # ds) i ts = host_move ds (Suc i) (move_one d i ts)"

subsection \<open>Self-sync marks and retry scheduling\<close>

text \<open>
  \<open>markTabsSyncingToChrome\<close> adds the ids to the set and leaves a pending expiry that will
  delete them; \<open>unmarkTabsSyncingToChrome\<close> deletes them at once.
\<close>

definition markTabsSyncingToChrome :: "int list \<Rightarrow> app_state \<Rightarrow> app_state" where
  "markTabsSyncingToChrome tabIds st =
     (let ids = uniqPreserveOrder tabIds
      in st\<lparr>syncingToChrome := syncingToChrome st \<union> set ids,
            syncing_expiries := syncing_expiries st @ [ids]\<rparr>)"

definition unmarkTabsSyncingToChrome :: "int list \<Rightarrow> app_state \<Rightarrow> app_state" where
  "unmarkTabsSyncingToChrome tabIds st =
     st\<lparr>syncingToChrome := syncingToChrome st - set (uniqPreserveOrder tabIds)\<rparr>"

text \<open>
  \<open>scheduleReconcileRetry\<close>: the timer registered for the space, if any, is cleared; a new
  timer is started and registered with its attempt number. \<open>setTimeout\<close> hands out the
  next unused positive id. The timer carries the options its callback will pass on,
  \<open>{ ...opts, _retryAttempt: attempt }\<close>.
\<close>

definition scheduleReconcileRetry ::
  "int \<Rightarrow> opts \<Rightarrow> nat \<Rightarrow> nat \<Rightarrow> string \<Rightarrow> app_state \<Rightarrow> app_state" where
  "scheduleReconcileRetry spaceId os attempt delayMs reason st =
     (let cleared =
            (case reconcileRetryBySpace st spaceId of
               None \<Rightarrow> timers st
             | Some existing \<Rightarrow>
                 if re_timeoutId existing \<noteq> 0
                 then filter (\<lambda>t. tm_id t \<noteq> re_timeoutId existing) (timers st)
                 else timers st);
          timeoutId = next_timer st;
          t = \<lparr>tm_id = timeoutId, tm_spaceId = spaceId,
               tm_opts = os\<lparr>opt_retryAttempt := attempt\<rparr>, tm_delayMs = delayMs\<rparr>
      in st\<lparr>timers := cleared @ [t],
            next_timer := Suc timeoutId,
            reconcileRetryBySpace := (reconcileRetryBySpace st)
              (spaceId \<mapsto> \<lparr>re_timeoutId = timeoutId, re_attempt = attempt, re_opts = os\<rparr>),
            logs := logs st @ [LogInfo ''[ReconcileOrder]  Scheduled retry'']\<rparr>)"

definition saveSpaces :: "app_state \<Rightarrow> app_state" where
  "saveSpaces st = st\<lparr>storage_writes := storage_writes st @ [spaces st]\<rparr>"

subsection \<open>reconcileSpaceTabOrdering\<close>

text \<open>
  The block for \<open>source === 'chrome'\<close>: the temporary order is taken from the host's order,
  and a moved bookmark tab found behind the first temporary tab goes to the end of the
  bookmark block.
\<close>

definition adoptChromeOrder :: "int list \<Rightarrow> int option \<Rightarrow> space \<Rightarrow> space" where
  "adoptChromeOrder chromeOrder movedTabId sp =
     (let bookmarkSet = set (spaceBookmarks sp);
          chromeTemps = filter (\<lambda>i. i \<notin> bookmarkSet) chromeOrder;
          sp1 = sp\<lparr>temporaryTabs := uniqPreserveOrder chromeTemps\<rparr>
      in case movedTabId of
           None \<Rightarrow> sp1
         | Some m \<Rightarrow>
             if m \<noteq> 0 \<and> m \<in> bookmarkSet then
               (let movedIndex = indexOf chromeOrder m;
                    firstTempIndex = findIndex (\<lambda>i. i \<notin> bookmarkSet) chromeOrder
                in if firstTempIndex \<noteq> - 1 \<and> movedIndex \<noteq> - 1 \<and> movedIndex > firstTempIndex
                   then sp1\<lparr>spaceBookmarks := filter (\<lambda>i. i \<noteq> m) (spaceBookmarks sp1) @ [m]\<rparr>
                   else sp1)
             else sp1)"

definition desiredBookmarks :: "int set \<Rightarrow> space \<Rightarrow> int list" where
  "desiredBookmarks tabsInGroupSet sp =
     uniqPreserveOrder (filter (\<lambda>i. i \<in> tabsInGroupSet) (spaceBookmarks sp))"

definition desiredTemps :: "int set \<Rightarrow> space \<Rightarrow> int list" where
  "desiredTemps tabsInGroupSet sp =
     uniqPreserveOrder
       (filter (\<lambda>i. i \<in> tabsInGroupSet \<and> i \<notin> set (desiredBookmarks tabsInGroupSet sp))
          (temporaryTabs sp))"

definition desiredGroupOrder :: "int set \<Rightarrow> space \<Rightarrow> int list" where
  "desiredGroupOrder tabsInGroupSet sp =
     uniqPreserveOrder (desiredBookmarks tabsInGroupSet sp @ desiredTemps tabsInGroupSet sp)"

text \<open>The space as the rest of the call sees it: updated from the host's order when the host moved a tab.\<close>

definition spaceAfterSource :: "opts \<Rightarrow> int list \<Rightarrow> space \<Rightarrow> space" where
  "spaceAfterSource os chromeOrder sp =
     (if opt_source os = Chrome then adoptChromeOrder chromeOrder (opt_movedTabId os) sp else sp)"

text \<open>A tab the reconciler orders: in the space's tab group and not host-level pinned.\<close>

definition inGroup :: "int \<Rightarrow> tab \<Rightarrow> bool" where
  "inGroup gid t \<longleftrightarrow> tab_groupId t = gid \<and> \<not> tab_pinned t"

text \<open>The group's tabs in tab-strip order without the host-level pinned ones, with their indices.\<close>

definition groupTabsUnpinned :: "int \<Rightarrow> tab list \<Rightarrow> (nat \<times> tab) list" where
  "groupTabsUnpinned spaceId ts =
     filter (\<lambda>(i, t). \<not> tab_pinned t) (sort_key fst (tabs_query_group spaceId ts))"

definition currentGroupOrder :: "int \<Rightarrow> tab list \<Rightarrow> int list" where
  "currentGroupOrder spaceId ts = map (\<lambda>(i, t). tab_id t) (groupTabsUnpinned spaceId ts)"

text \<open>
  \<open>currentGroupOrder.length === desiredGroupOrder.length &&
  currentGroupOrder.every((id, idx) => id === desiredGroupOrder[idx])\<close>.
\<close>

definition isSameOrder :: "int list \<Rightarrow> int list \<Rightarrow> bool" where
  "isSameOrder cur desired \<longleftrightarrow>
     length cur = length desired \<and> list_all (\<lambda>idx. cur ! idx = desired ! idx) [0..<length cur]"

text \<open>\<open>tempContainer.appendChild(el)\<close> for each id that has a row: the row goes to the bottom.\<close>

definition appendRow :: "int list \<Rightarrow> int \<Rightarrow> int list" where
  "appendRow rows i = (if i \<in> set rows then remove1 i rows @ [i] else rows)"

definition updateTempDom :: "bool \<Rightarrow> int \<Rightarrow> int list \<Rightarrow> app_state \<Rightarrow> app_state" where
  "updateTempDom invertTabOrder spaceId temps st =
     (case dom_temp st spaceId of
        None \<Rightarrow> st
      | Some rows \<Rightarrow>
          let domTempOrder = (if invertTabOrder then rev temps else temps)
          in st\<lparr>dom_temp := (dom_temp st)(spaceId \<mapsto> foldl appendRow rows domTempOrder)\<rparr>)"

definition retryDelayMs :: "nat \<Rightarrow> nat" where
  "retryDelayMs nextAttempt = min 1200 (200 + nextAttempt * 100)"

text \<open>
  The \<open>catch\<close> block of the move. \<open>None\<close>: the error is handled and the function goes on
  to save and update the DOM; \<open>Some msg\<close>: the error is thrown again.
\<close>

definition onMoveError ::
  "int \<Rightarrow> opts \<Rightarrow> int list \<Rightarrow> string \<Rightarrow> app_state \<Rightarrow> string option \<times> app_state" where
  "onMoveError spaceId os desired message st =
     (let st1 = unmarkTabsSyncingToChrome desired st;
          isChromeMidDrag = includes_str message ''Tabs cannot be edited right now''
      in if isChromeMidDrag then
           (let nextAttempt = opt_retryAttempt os + 1
            in if nextAttempt \<le> 12 then
                 (None, scheduleReconcileRetry spaceId
                          \<lparr>opt_source = opt_source os, opt_movedTabId = opt_movedTabId os,
                           opt_retryAttempt = 0\<rparr>
                          nextAttempt (retryDelayMs nextAttempt) message st1)
               else
                 (None, st1\<lparr>logs := logs st1 @
                    [LogWarn ''[ReconcileOrder] Gave up retrying reorder (Chrome remained locked):'']\<rparr>))
         else
           (Some message,
            st1\<lparr>logs := logs st1 @ [LogError ''[ReconcileOrder] Error moving tabs:'']\<rparr>))"

text \<open>
  \<open>reconcileSpaceTabOrdering(spaceId, opts)\<close>. \<open>invertTabOrder\<close> is the setting read by
  \<open>Utils.getInvertTabOrder\<close>, \<open>outcome\<close> the host's answer to the move, should one be issued.
\<close>

definition reconcileSpaceTabOrdering ::
  "bool \<Rightarrow> move_outcome \<Rightarrow> int \<Rightarrow> opts \<Rightarrow> app_state \<Rightarrow> call_result \<times> app_state" where
  "reconcileSpaceTabOrdering invertTabOrder outcome spaceId os st =
     (case List.find (\<lambda>s. space_id s = spaceId) (spaces st) of
        None \<Rightarrow> (Returned, st)
      | Some space0 \<Rightarrow>
          if spaceId = 0 then (Returned, st)
          else
            let unpinned = groupTabsUnpinned spaceId (host_tabs st) in
            if unpinned = [] then (Returned, st)
            else
              let tabsInGroupSet = set (map (\<lambda>(i, t). tab_id t) unpinned);
                  chromeOrder = map (\<lambda>(i, t). tab_id t) unpinned;
                  sp = spaceAfterSource os chromeOrder space0;
                  st1 = st\<lparr>spaces := updateSpace spaceId (\<lambda>_. sp) (spaces st)\<rparr>;
                  temps = desiredTemps tabsInGroupSet sp;
                  desired = desiredGroupOrder tabsInGroupSet sp;
                  (thrown, st2) =
                    (if isSameOrder chromeOrder desired then (None, st1)
                     else
                       let groupStartIndex = fst (hd unpinned);
                           st1a = markTabsSyncingToChrome desired st1;
                           st1b = st1a\<lparr>move_calls := move_calls st1a @ [(desired, groupStartIndex)]\<rparr>
                       in case outcome of
                            Accepted \<Rightarrow>
                              (None,
                               st1b\<lparr>host_tabs := host_move desired groupStartIndex (host_tabs st1b),
                                     logs := logs st1b @ [LogInfo ''[ReconcileOrder]  Reordered group'']\<rparr>)
                          | Rejected message \<Rightarrow> onMoveError spaceId os desired message st1b)
              in case thrown of
                   Some message \<Rightarrow> (Threw message, st2)
                 | None \<Rightarrow> (Returned, updateTempDom invertTabOrder spaceId temps (saveSpaces st2)))"

text \<open>
  The callback of a retry timer, run when the timer with id \<open>tid\<close> expires: the timer is
  no longer pending, the space's entry is deleted from the map, the reconciliation runs
  again with the attempt number, and an error it throws is logged.
\<close>

definition fireRetryTimer :: "bool \<Rightarrow> move_outcome \<Rightarrow> nat \<Rightarrow> app_state \<Rightarrow> app_state" where
  "fireRetryTimer invertTabOrder outcome tid st =
     (case List.find (\<lambda>t. tm_id t = tid) (timers st) of
        None \<Rightarrow> st
      | Some t \<Rightarrow>
          let st1 = st\<lparr>timers := filter (\<lambda>u. tm_id u \<noteq> tid) (timers st),
                       reconcileRetryBySpace := (reconcileRetryBySpace st)(tm_spaceId t := None)\<rparr>
          in case reconcileSpaceTabOrdering invertTabOrder outcome (tm_spaceId t) (tm_opts t) st1 of
               (Returned, st2) \<Rightarrow> st2
             | (Threw e, st2) \<Rightarrow> st2\<lparr>logs := logs st2 @ [LogWarn ''[ReconcileOrder] Retry failed:'']\<rparr>)"

subsection \<open>Sample states\<close>

text \<open>An unpinned tab of a group, and a sidebar that has rendered nothing and scheduled nothing yet.\<close>

definition groupTab :: "int \<Rightarrow> int \<Rightarrow> tab" where
  "groupTab i gid = \<lparr>tab_id = i, tab_groupId = gid, tab_pinned = False, tab_url = []\<rparr>"

definition sidebarState :: "space list \<Rightarrow> tab list \<Rightarrow> app_state" where
  "sidebarState sps ts =
     \<lparr>spaces = sps, host_tabs = ts, storage_writes = [], dom_temp = (\<lambda>_. None),
      syncingToChrome = {}, syncing_expiries = [], reconcileRetryBySpace = (\<lambda>_. None),
      timers = [], next_timer = 1, move_calls = [], logs = []\<rparr>"

definition workSpace :: "int list \<Rightarrow> int list \<Rightarrow> space" where
  "workSpace bms temps =
     \<lparr>space_id = 10, space_name = ''Work'', spaceBookmarks = bms, temporaryTabs = temps,
      lastTab = None\<rparr>"

definition fromChrome :: "int option \<Rightarrow> opts" where
  "fromChrome moved = \<lparr>opt_source = Chrome, opt_movedTabId = moved, opt_retryAttempt = 0\<rparr>"

definition fromArcify :: "int option \<Rightarrow> opts" where
  "fromArcify moved = \<lparr>opt_source = Arcify, opt_movedTabId = moved, opt_retryAttempt = 0\<rparr>"

text \<open>Bookmark tabs 1 and 2, temporary tab 3; in the tab strip tab 3 has been dragged to the front.\<close>

definition tempDraggedFirst :: app_state where
  "tempDraggedFirst =
     sidebarState [workSpace [1, 2] [3]] [groupTab 3 10, groupTab 1 10, groupTab 2 10]"

text \<open>The same space; in the tab strip bookmark tab 1 has been dragged behind temporary tab 3.\<close>

definition bookmarkDraggedLast :: app_state where
  "bookmarkDraggedLast =
     sidebarState [workSpace [1, 2] [3]] [groupTab 2 10, groupTab 3 10, groupTab 1 10]"

text \<open>Tab 3 is in the group but in neither array of the space.\<close>

definition untrackedTab :: app_state where
  "untrackedTab =
     sidebarState [workSpace [1] [2]] [groupTab 2 10, groupTab 1 10, groupTab 3 10]"

text \<open>The group of the space holds a host-level pinned tab only.\<close>

definition onlyPinned :: app_state where
  "onlyPinned =
     sidebarState [workSpace [1] []]
       [\<lparr>tab_id = 1, tab_groupId = 10, tab_pinned = True, tab_url = []\<rparr>, groupTab 4 20]"

subsection \<open>The boundary rule in the words of the specification\<close>

text \<open>
  Section 4.1 of the specification says of a reorder made by the host: "if a
  bookmark-tracked id is found positioned after the first temporary id, treat this as an
  illegal boundary violation and move that id to the end of the bookmark block in the
  persisted model". \<open>specBehindFirstTemp\<close> is that position test on the host's order of the
  group. \<open>specBookmarksAfterHostReorder\<close> follows the sentence, not the code: every
  bookmark-tracked id that the test finds, taken in the host's order, is moved to the end
  of the bookmark block. It is what \<open>adoptChromeOrder\<close> is compared with.
\<close>

definition specBehindFirstTemp :: "int list \<Rightarrow> int list \<Rightarrow> int \<Rightarrow> bool" where
  "specBehindFirstTemp chromeOrder bookmarks i \<longleftrightarrow>
     i \<in> set bookmarks \<and> i \<in> set chromeOrder \<and>
     list_ex (\<lambda>j. j \<notin> set bookmarks) (takeWhile (\<lambda>j. j \<noteq> i) chromeOrder)"

definition specBookmarksAfterHostReorder :: "int list \<Rightarrow> int list \<Rightarrow> int list" where
  "specBookmarksAfterHostReorder chromeOrder bookmarks =
     foldl (\<lambda>bms i. filter (\<lambda>j. j \<noteq> i) bms @ [i]) bookmarks
       (filter (specBehindFirstTemp chromeOrder bookmarks) chromeOrder)"

subsection \<open>Runs of the sidebar, as far as the retry timers are concerned\<close>

text \<open>
  The states the sidebar can be in: it starts with no timer pending and an empty retry map;
  then reconciliations are requested, pending retry timers expire, and everything else the
  sidebar or the host does changes the spaces and the tab strip but never the timers.
\<close>

inductive reachable :: "app_state \<Rightarrow> bool" where
  start: "timers st = [] \<Longrightarrow> reconcileRetryBySpace st = (\<lambda>_. None) \<Longrightarrow> 0 < next_timer st \<Longrightarrow>
          reachable st"
| request: "reachable st \<Longrightarrow> reachable (snd (reconcileSpaceTabOrdering ito oc spaceId os st))"
| expire: "reachable st \<Longrightarrow> reachable (fireRetryTimer ito oc tid st)"
| other: "reachable st \<Longrightarrow> reachable (st\<lparr>spaces := sps, host_tabs := ts\<rparr>)"

text \<open>The retry timers pending for a space.\<close>

definition pendingRetries :: "int \<Rightarrow> app_state \<Rightarrow> timer list" where
  "pendingRetries spaceId st = filter (\<lambda>t. tm_spaceId t = spaceId) (timers st)"

text \<open>
  What holds of the timers in every reachable state: the next id to hand out is positive, the ids of the
  pending timers are positive, pairwise different and below it, and each pending timer is the one the
  retry map registers for its space.
\<close>

definition registered :: "app_state \<Rightarrow> timer \<Rightarrow> bool" where
  "registered st t \<longleftrightarrow>
     0 < tm_id t \<and> tm_id t < next_timer st \<and>
     map_option re_timeoutId (reconcileRetryBySpace st (tm_spaceId t)) = Some (tm_id t)"

definition retryInv :: "app_state \<Rightarrow> bool" where
  "retryInv st \<longleftrightarrow>
     0 < next_timer st \<and> distinct (map tm_id (timers st)) \<and> list_all (registered st) (timers st)"

text \<open>The timers left once the \<open>clearTimeout\<close> of \<open>scheduleReconcileRetry\<close> has run for the space.\<close>

definition cleared :: "int \<Rightarrow> app_state \<Rightarrow> timer list" where
  "cleared spaceId st =
     (case reconcileRetryBySpace st spaceId of
        None \<Rightarrow> timers st
      | Some existing \<Rightarrow>
          if re_timeoutId existing \<noteq> 0
          then filter (\<lambda>t. tm_id t \<noteq> re_timeoutId existing) (timers st)
          else timers st)"

text \<open>The host's message while the user drags a tab, and a state with a retry pending for space 10.\<close>

definition midDragMessage :: string where
  "midDragMessage = ''Error: Tabs cannot be edited right now (user may be dragging a tab).''"

definition retryPending :: app_state where
  "retryPending =
     snd (reconcileSpaceTabOrdering False (Rejected midDragMessage) 10 (fromArcify None)
       bookmarkDraggedLast)"

definition attempt :: "nat \<Rightarrow> opts" where
  "attempt n = \<lparr>opt_source = Arcify, opt_movedTabId = None, opt_retryAttempt = n\<rparr>"

section \<open>Membership transitions\<close>

text \<open>
  The operations below are modelled on the \<open>spaces\<close> array, which is all they change of
  the two arrays; their bookmark, DOM and host calls are left out. Each of them that ends
  in \<open>reconcileSpaceTabOrdering\<close> calls it with \<open>source: 'arcify'\<close>, which leaves both
  arrays as they are.
\<close>

text \<open>\<open>moveTabToPinned(space, tab)\<close> and \<open>moveTabToTemp(space, tab)\<close>, on the space object they are given.\<close>

definition moveTabToPinned :: "int \<Rightarrow> space \<Rightarrow> space" where
  "moveTabToPinned tabId sp =
     (let sp1 = sp\<lparr>temporaryTabs := filter (\<lambda>i. i \<noteq> tabId) (temporaryTabs sp)\<rparr>
      in if tabId \<in> set (spaceBookmarks sp1) then sp1
         else sp1\<lparr>spaceBookmarks := spaceBookmarks sp1 @ [tabId]\<rparr>)"

definition moveTabToTemp :: "int \<Rightarrow> space \<Rightarrow> space" where
  "moveTabToTemp tabId sp =
     (let sp1 = sp\<lparr>spaceBookmarks := filter (\<lambda>i. i \<noteq> tabId) (spaceBookmarks sp)\<rparr>
      in if tabId \<in> set (temporaryTabs sp1) then sp1
         else sp1\<lparr>temporaryTabs := temporaryTabs sp1 @ [tabId]\<rparr>)"

text \<open>The first element that satisfies \<open>P\<close> is the object \<open>find\<close> returns; it is mutated in place.\<close>

fun updateFirst :: "('a \<Rightarrow> bool) \<Rightarrow> ('a \<Rightarrow> 'a) \<Rightarrow> 'a list \<Rightarrow> 'a list" where
  "updateFirst P f [] = []"
| "updateFirst P f (x # xs) = (if P x then f x # xs else x # updateFirst P f xs)"

definition tracksTab :: "int \<Rightarrow> space \<Rightarrow> bool" where
  "tracksTab tabId s \<longleftrightarrow> tabId \<in> set (temporaryTabs s) \<or> tabId \<in> set (spaceBookmarks s)"

text \<open>
  \<open>moveTabToSpace(tabId, spaceId, pinned)\<close>: the tab leaves the space that tracks it, if that
  is another space; then, if the target space exists, the tab is taken out of both of its
  arrays and pushed onto one.
\<close>

definition moveTabToSpace :: "int \<Rightarrow> int \<Rightarrow> bool \<Rightarrow> space list \<Rightarrow> space list" where
  "moveTabToSpace tabId spaceId pinned sps =
     (let sps1 =
            (case List.find (tracksTab tabId) sps of
               None \<Rightarrow> sps
             | Some sourceSpace \<Rightarrow>
                 if space_id sourceSpace \<noteq> spaceId
                 then updateFirst (tracksTab tabId)
                        (\<lambda>s. s\<lparr>temporaryTabs := filter (\<lambda>i. i \<noteq> tabId) (temporaryTabs s),
                               spaceBookmarks := filter (\<lambda>i. i \<noteq> tabId) (spaceBookmarks s),
                               lastTab := None\<rparr>) sps
                 else sps)
      in case List.find (\<lambda>s. space_id s = spaceId) sps1 of
           None \<Rightarrow> sps1
         | Some _ \<Rightarrow>
             updateFirst (\<lambda>s. space_id s = spaceId)
               (\<lambda>s. let bms = filter (\<lambda>i. i \<noteq> tabId) (spaceBookmarks s);
                        temps = filter (\<lambda>i. i \<noteq> tabId) (temporaryTabs s)
                    in s\<lparr>spaceBookmarks := (if pinned then bms @ [tabId] else bms),
                          temporaryTabs := (if pinned then temps else temps @ [tabId]),
                          lastTab := Some tabId\<rparr>) sps1)"

text \<open>
  Modelled from the spec: \<open>BookmarkUtils.findTabByUrl\<close> is defined in
  \<open>bookmark-utils.js\<close>, which is not among the sources; only its calls are. Section 4.3
  describes what it finds as "a tab whose current URL exactly equals the bookmark's URL":
  the first such tab of the list.
\<close>

definition findTabByUrl :: "tab list \<Rightarrow> string \<Rightarrow> tab option" where
  "findTabByUrl ts u = List.find (\<lambda>t. tab_url t = u) ts"

text \<open>
  The click on a bookmark row (\<open>createTabElement\<close>, left mouse button, the row being
  bookmark-only or its tab closed), in the branch where a tab with the row's URL is open:
  that tab is activated, and in the space of its group it becomes \<open>lastTab\<close>; for a pinned
  row its id is pushed onto \<open>spaceBookmarks\<close> unless already there. \<open>None\<close> stands for
  the other branches (restore from the archive, open a new tab), which are not modelled.
\<close>

definition activateExistingTab :: "bool \<Rightarrow> tab \<Rightarrow> space list \<Rightarrow> space list" where
  "activateExistingTab isPinned existingTab sps =
     updateFirst (\<lambda>s. space_id s = tab_groupId existingTab)
       (\<lambda>s. let s1 = s\<lparr>lastTab := Some (tab_id existingTab)\<rparr>
            in if isPinned \<and> tab_id existingTab \<notin> set (spaceBookmarks s1)
               then s1\<lparr>spaceBookmarks := spaceBookmarks s1 @ [tab_id existingTab]\<rparr>
               else s1) sps"

definition bookmarkRowClick :: "bool \<Rightarrow> string \<Rightarrow> tab list \<Rightarrow> space list \<Rightarrow> space list option" where
  "bookmarkRowClick isPinned tabUrl allTabs sps =
     (case findTabByUrl allTabs tabUrl of
        Some existingTab \<Rightarrow> Some (activateExistingTab isPinned existingTab sps)
      | None \<Rightarrow> None)"

text \<open>The disjointness invariant of a space.\<close>

definition disjointArrays :: "space \<Rightarrow> bool" where
  "disjointArrays s \<longleftrightarrow> set (spaceBookmarks s) \<inter> set (temporaryTabs s) = {}"

text \<open>
  Space 10 with temporary tab 7, which has been navigated to the URL of a bookmark of the
  space whose row is a bookmark-only placeholder.
\<close>

definition docsTab :: tab where
  "docsTab = \<lparr>tab_id = 7, tab_groupId = 10, tab_pinned = False,
              tab_url = ''https://docs.example/plan''\<rparr>"

section \<open>Bookmark folders\<close>

text \<open>
  A node of the bookmark tree as \<open>chrome.bookmarks\<close> returns it. A folder has no \<open>url\<close>:
  its \<open>bn_url\<close> is empty, which is what the code tests (\<open>!item.url\<close>). \<open>bn_children\<close> is
  what \<open>getChildren\<close> returns for the node, in order.
\<close>

datatype bnode =
  BNode (bn_id: string) (bn_title: string) (bn_url: string) (bn_dateAdded: int)
    (bn_children: "bnode list")

section \<open>Matching bookmarks to open tabs (loadTabs)\<close>

text \<open>
  \<open>Utils.getPinnedUrlKey\<close>. \<open>parse\<close> stands for the platform's \<open>new URL(url)\<close>: the
  origin and the pathname, or \<open>None\<close> when the constructor throws.
\<close>

definition getPinnedUrlKey :: "(string \<Rightarrow> (string \<times> string) option) \<Rightarrow> string \<Rightarrow> string" where
  "getPinnedUrlKey parse u =
     (if u = [] then []
      else case parse u of
             Some (origin, pathname) \<Rightarrow> origin @ pathname
           | None \<Rightarrow> takeWhile (\<lambda>c. c \<noteq> CHR ''?'') (takeWhile (\<lambda>c. c \<noteq> CHR ''#'') u))"

text \<open>
  What \<open>loadTabs\<close> has read before it walks the space's folder: the setting, all open
  tabs, the bookmark id stored in each tab's Pinned Tab State, and the URLs of the
  host-level pinned tabs.
\<close>

record load_env =
  le_invertTabOrder :: bool
  le_tabs :: "tab list"
  le_pinnedBookmarkId :: "int \<Rightarrow> string option"
  le_pinnedUrls :: "string set"
  le_parse :: "string \<Rightarrow> (string \<times> string) option"

text \<open>A row rendered in the pinned section: a live tab row, a bookmark-only placeholder, or a folder.\<close>

datatype pinned_row =
  TabRow string int
| PlaceholderRow string
| FolderRow string "pinned_row list"

text \<open>The three candidates of \<open>processBookmarkNode\<close> and the choice \<open>byBookmarkId || byExactUrl || byBaseUrl\<close>.\<close>

definition byBookmarkId :: "load_env \<Rightarrow> bnode \<Rightarrow> tab option" where
  "byBookmarkId env item =
     List.find (\<lambda>t. le_pinnedBookmarkId env (tab_id t) = Some (bn_id item)) (le_tabs env)"

definition byExactUrl :: "load_env \<Rightarrow> bnode \<Rightarrow> tab option" where
  "byExactUrl env item = findTabByUrl (le_tabs env) (bn_url item)"

definition byBaseUrl :: "load_env \<Rightarrow> int set \<Rightarrow> bnode \<Rightarrow> tab option" where
  "byBaseUrl env representedPinnedTabIds item =
     List.find (\<lambda>t. tab_id t \<noteq> 0 \<and> tab_id t \<notin> representedPinnedTabIds \<and>
                     getPinnedUrlKey (le_parse env) (tab_url t) =
                     getPinnedUrlKey (le_parse env) (bn_url item)) (le_tabs env)"

definition existingTab :: "load_env \<Rightarrow> int set \<Rightarrow> bnode \<Rightarrow> tab option" where
  "existingTab env representedPinnedTabIds item =
     (case byBookmarkId env item of
        Some t \<Rightarrow> Some t
      | None \<Rightarrow>
          (case byExactUrl env item of
             Some t \<Rightarrow> Some t
           | None \<Rightarrow> byBaseUrl env representedPinnedTabIds item))"

definition itemsToRender :: "load_env \<Rightarrow> bnode \<Rightarrow> bnode list" where
  "itemsToRender env node =
     (if le_invertTabOrder env then rev (bn_children node) else bn_children node)"

text \<open>
  The loop of \<open>processBookmarkNode\<close> over the items of one folder. \<open>processedUrls\<close> is
  local to the folder, \<open>representedPinnedTabIds\<close> is shared by the whole load and
  returned. A nested folder is rendered by the recursive call on its own items, with a new
  \<open>processedUrls\<close>.
\<close>

function processItems ::
  "load_env \<Rightarrow> bnode list \<Rightarrow> string set \<Rightarrow> int set \<Rightarrow> pinned_row list \<times> int set" where
  "processItems env [] processedUrls represented = ([], represented)"
| "processItems env (item # rest) processedUrls represented =
     (if bn_url item = [] \<and> bn_title item = ''_Favorites''
      then processItems env rest processedUrls represented
      else if bn_url item = [] then
        (let (rows, represented1) = processItems env (itemsToRender env item) {} represented;
             (more, represented2) = processItems env rest processedUrls represented1
         in (FolderRow (bn_id item) rows # more, represented2))
      else if bn_url item \<notin> processedUrls \<and> bn_url item \<notin> le_pinnedUrls env then
        (case existingTab env represented item of
           Some t \<Rightarrow>
             (let (more, represented2) =
                    processItems env rest (insert (bn_url item) processedUrls)
                      (insert (tab_id t) represented)
              in (TabRow (bn_id item) (tab_id t) # more, represented2))
         | None \<Rightarrow>
             (let (more, represented2) =
                    processItems env rest (insert (bn_url item) processedUrls) represented
              in (PlaceholderRow (bn_id item) # more, represented2)))
      else processItems env rest processedUrls represented)"
  by pat_completeness auto

termination processItems
proof -
  have r: "size_list f (rev xs) = size_list f xs" for f :: "bnode \<Rightarrow> nat" and xs
    by (induction xs) (simp_all add: size_list_append)
  have lt: "size_list size (itemsToRender env item) < Suc (size item + n)" for env item n
    by (cases item) (simp add: itemsToRender_def r)
  show ?thesis
    by (relation "measure (\<lambda>(env, items, processedUrls, represented). size_list size items)")
       (auto simp: lt)
qed

definition processBookmarkNode :: "load_env \<Rightarrow> bnode \<Rightarrow> int set \<Rightarrow> pinned_row list \<times> int set" where
  "processBookmarkNode env node represented = processItems env (itemsToRender env node) {} represented"

text \<open>The bookmarks that a tab represents among the rendered rows.\<close>

fun representedBy :: "int \<Rightarrow> pinned_row list \<Rightarrow> string list" where
  "representedBy tid [] = []"
| "representedBy tid (TabRow b t # rows) =
     (if t = tid then b # representedBy tid rows else representedBy tid rows)"
| "representedBy tid (PlaceholderRow b # rows) = representedBy tid rows"
| "representedBy tid (FolderRow f inner # rows) = representedBy tid inner @ representedBy tid rows"

text \<open>
  A space folder with two bookmarks, and one open tab: tab 5 was pinned as the second
  bookmark (its Pinned Tab State names bookmark \<open>''102''\<close>) and has since been navigated
  to the URL of the first.
\<close>

definition twoBookmarks :: bnode where
  "twoBookmarks =
     BNode ''100'' ''Work'' [] 0
       [BNode ''101'' ''Plan'' ''https://docs.example/plan'' 1 [],
        BNode ''102'' ''Mail'' ''https://mail.example/inbox'' 2 []]"

definition navigatedTab :: tab where
  "navigatedTab = \<lparr>tab_id = 5, tab_groupId = 10, tab_pinned = False,
                   tab_url = ''https://docs.example/plan''\<rparr>"

definition oneTabEnv :: "(string \<Rightarrow> (string \<times> string) option) \<Rightarrow> load_env" where
  "oneTabEnv parse =
     \<lparr>le_invertTabOrder = False, le_tabs = [navigatedTab],
      le_pinnedBookmarkId = (\<lambda>i. if i = 5 then Some ''102'' else None),
      le_pinnedUrls = {}, le_parse = parse\<rparr>"

section \<open>Merging duplicate space folders (background.js)\<close>

text \<open>
  The calls the merge issues to \<open>chrome.bookmarks\<close>: \<open>move(id, {parentId})\<close>, which appends
  the node to the children of the new parent, and \<open>remove(id)\<close>.
\<close>

datatype bm_call = Move string string | Remove string

definition isFolder :: "bnode \<Rightarrow> bool" where
  "isFolder n \<longleftrightarrow> bn_url n = []"

definition withChildren :: "bnode \<Rightarrow> bnode list \<Rightarrow> bnode" where
  "withChildren n cs = BNode (bn_id n) (bn_title n) (bn_url n) (bn_dateAdded n) cs"

text \<open>\<open>targetChildren.some(targetItem => targetItem.url === sourceItem.url)\<close>.\<close>

definition existsInTarget :: "bnode list \<Rightarrow> bnode \<Rightarrow> bool" where
  "existsInTarget targetChildren sourceItem \<longleftrightarrow>
     list_ex (\<lambda>targetItem. bn_url targetItem = bn_url sourceItem) targetChildren"

text \<open>\<open>targetChildren.find(targetItem => !targetItem.url && targetItem.title === sourceItem.title)\<close>.\<close>

definition sameTitleFolder :: "bnode \<Rightarrow> bnode \<Rightarrow> bool" where
  "sameTitleFolder sourceItem targetItem \<longleftrightarrow>
     bn_url targetItem = [] \<and> bn_title targetItem = bn_title sourceItem"

text \<open>
  The loop of \<open>_mergeFolderContentsRecursive(sourceFolderId, targetFolderId)\<close> over
  \<open>sourceChildren\<close>. The bookmark store is passed as values: \<open>targetChildren\<close> are the
  children of the target read before the loop, each in its current state, and the nodes
  moved into the target so far are returned apart from them, since the loop never looks
  at them: \<open>targetChildren\<close> is read once. The children of the target after the loop are
  \<open>targetChildren\<close> as returned, followed by the moved nodes (a move appends). A nested
  folder whose title a folder of \<open>targetChildren\<close> has is merged into the first such
  folder by the recursive call, which reads that folder's children anew, and is removed
  afterwards. The host's calls act on nodes just read from the store and are taken to
  succeed, so the \<open>catch\<close> blocks are not entered.
\<close>

function mergeLoop ::
  "string \<Rightarrow> bnode list \<Rightarrow> bnode list \<Rightarrow> bnode list \<times> bnode list \<times> bm_call list" where
  "mergeLoop targetFolderId [] targetChildren = (targetChildren, [], [])"
| "mergeLoop targetFolderId (sourceItem # rest) targetChildren =
     (if bn_url sourceItem \<noteq> [] then
        (if \<not> existsInTarget targetChildren sourceItem then
           (let (tc, moved, calls) = mergeLoop targetFolderId rest targetChildren
            in (tc, sourceItem # moved, Move (bn_id sourceItem) targetFolderId # calls))
         else
           (let (tc, moved, calls) = mergeLoop targetFolderId rest targetChildren
            in (tc, moved, Remove (bn_id sourceItem) # calls)))
      else
        (case List.find (sameTitleFolder sourceItem) targetChildren of
           Some existingTargetSubfolder \<Rightarrow>
             (let (sub, subMoved, subCalls) =
                    mergeLoop (bn_id existingTargetSubfolder) (bn_children sourceItem)
                      (bn_children existingTargetSubfolder);
                  merged = withChildren existingTargetSubfolder (sub @ subMoved);
                  (tc, moved, calls) =
                    mergeLoop targetFolderId rest
                      (updateFirst (sameTitleFolder sourceItem) (\<lambda>_. merged) targetChildren)
              in (tc, moved, subCalls @ Remove (bn_id sourceItem) # calls))
         | None \<Rightarrow>
             (let (tc, moved, calls) = mergeLoop targetFolderId rest targetChildren
              in (tc, sourceItem # moved, Move (bn_id sourceItem) targetFolderId # calls))))"
  by pat_completeness auto

termination mergeLoop
proof -
  have lt: "size_list size (bn_children item) < Suc (size item + n)" for item :: bnode and n
    by (cases item) simp
  show ?thesis
    by (relation "measure (\<lambda>(targetFolderId, sourceChildren, targetChildren).
          size_list size sourceChildren)")
       (auto simp: lt)
qed

text \<open>\<open>_mergeFolderContentsRecursive\<close> on a source and a target folder: the target afterwards, and the calls.\<close>

definition mergeFolderContentsRecursive :: "bnode \<Rightarrow> bnode \<Rightarrow> bnode \<times> bm_call list" where
  "mergeFolderContentsRecursive sourceFolder targetFolder =
     (let (tc, moved, calls) =
            mergeLoop (bn_id targetFolder) (bn_children sourceFolder) (bn_children targetFolder)
      in (withChildren targetFolder (tc @ moved), calls))"

text \<open>
  The inner loop of \<open>mergeDuplicateSpaceFolders\<close> over \<open>group[1..]\<close>: each duplicate is
  merged into the target as it then is, and removed.
\<close>

fun mergeSources :: "bnode \<Rightarrow> bnode list \<Rightarrow> bnode \<times> bm_call list" where
  "mergeSources targetFolder [] = (targetFolder, [])"
| "mergeSources targetFolder (sourceFolder # rest) =
     (let (t1, calls1) = mergeFolderContentsRecursive sourceFolder targetFolder;
          (t2, calls2) = mergeSources t1 rest
      in (t2, calls1 @ Remove (bn_id sourceFolder) # calls2))"

text \<open>The keys of \<open>folderGroups\<close> in insertion order: the folder titles by first occurrence.\<close>

fun firstOccurrences :: "string list \<Rightarrow> string list" where
  "firstOccurrences [] = []"
| "firstOccurrences (x # xs) = x # filter (\<lambda>y. y \<noteq> x) (firstOccurrences xs)"

definition folderGroup :: "string \<Rightarrow> bnode list \<Rightarrow> bnode list" where
  "folderGroup name children = filter (\<lambda>c. isFolder c \<and> bn_title c = name) children"

text \<open>\<open>group.sort((a, b) => a.dateAdded - b.dateAdded)\<close>, a stable sort, and \<open>group[0]\<close>.\<close>

definition oldestFirst :: "bnode list \<Rightarrow> bnode list" where
  "oldestFirst grp = sort_key bn_dateAdded grp"

text \<open>
  One round of the outer loop, for the group of one title, on the children of the BarCat
  folder: for a group of more than one folder the oldest is the target; in the children
  it is replaced by the merged target, and the other folders of the group are gone.
\<close>

definition mergeGroup :: "string \<Rightarrow> bnode list \<times> bm_call list \<Rightarrow> bnode list \<times> bm_call list" where
  "mergeGroup name state =
     (let children = fst state;
          grp = folderGroup name children
      in if length grp > 1 then
           (let sorted = oldestFirst grp;
                targetFolder = hd sorted;
                (merged, calls) = mergeSources targetFolder (tl sorted)
            in (concat (map (\<lambda>c. if isFolder c \<and> bn_title c = name
                                  then (if bn_id c = bn_id targetFolder then [merged] else [])
                                  else [c]) children),
                snd state @ calls))
         else state)"

text \<open>The outer loop \<open>for (const [name, group] of folderGroups.entries())\<close>.\<close>

definition mergeGroups :: "string list \<Rightarrow> bnode list \<times> bm_call list \<Rightarrow> bnode list \<times> bm_call list" where
  "mergeGroups names state = foldl (\<lambda>state name. mergeGroup name state) state names"

text \<open>
  \<open>mergeDuplicateSpaceFolders\<close> on the BarCat folder (\<open>None\<close>: the search finds no such
  folder): the folder afterwards and the calls issued. \<open>mergedChildren\<close> are the children
  of the folder after the outer loop, \<open>mergeCalls\<close> the calls of the loop.
\<close>

definition folderNames :: "bnode \<Rightarrow> string list" where
  "folderNames root = firstOccurrences (map bn_title (filter isFolder (bn_children root)))"

definition mergedChildren :: "bnode \<Rightarrow> bnode list" where
  "mergedChildren root = fst (mergeGroups (folderNames root) (bn_children root, []))"

definition mergeCalls :: "bnode \<Rightarrow> bm_call list" where
  "mergeCalls root = snd (mergeGroups (folderNames root) (bn_children root, []))"

definition mergeDuplicateSpaceFolders :: "bnode option \<Rightarrow> bnode option \<times> bm_call list" where
  "mergeDuplicateSpaceFolders arcifyFolder =
     (case arcifyFolder of
        None \<Rightarrow> (None, [])
      | Some root \<Rightarrow> (Some (withChildren root (mergedChildren root)), mergeCalls root))"

text \<open>The bookmark URLs at and below a node: a bookmark's own URL, a folder's bookmarks at any depth.\<close>

fun allUrls :: "bnode \<Rightarrow> string set" where
  "allUrls (BNode i t u d cs) = (if u = [] then (\<Union>c\<in>set cs. allUrls c) else {u})"

definition urlsOf :: "bnode list \<Rightarrow> string set" where
  "urlsOf ns = (\<Union>n\<in>set ns. allUrls n)"

text \<open>A source item that the loop moves: a bookmark with a URL, or a folder with a title, that \<open>targetChildren\<close> lacks.\<close>

definition isNewIn :: "bnode list \<Rightarrow> bnode \<Rightarrow> bool" where
  "isNewIn targetChildren sourceItem \<longleftrightarrow>
     (if bn_url sourceItem \<noteq> [] then \<not> existsInTarget targetChildren sourceItem
      else List.find (sameTitleFolder sourceItem) targetChildren = None)"

text \<open>Sample folders.\<close>

definition bookmark :: "string \<Rightarrow> string \<Rightarrow> bnode" where
  "bookmark i u = BNode i ''page'' u 0 []"

definition folder :: "string \<Rightarrow> string \<Rightarrow> int \<Rightarrow> bnode list \<Rightarrow> bnode" where
  "folder i title added cs = BNode i title [] added cs"

text \<open>Two root folders titled Work; the younger one holds the same URL twice.\<close>

definition twiceInSource :: bnode where
  "twiceInSource =
     folder ''1'' ''BarCat'' 0
       [folder ''10'' ''Work'' 100 [],
        folder ''20'' ''Work'' 200
          [bookmark ''21'' ''https://a.example/'', bookmark ''22'' ''https://a.example/'']]"

text \<open>
  Three root folders titled Work and one titled Home. The oldest Work folder holds a
  bookmark and a subfolder Docs; the others bring the same bookmark again, a new one, a
  Docs subfolder to merge and a Media subfolder to move.
\<close>

definition threeWork :: bnode where
  "threeWork =
     folder ''1'' ''BarCat'' 0
       [folder ''20'' ''Work'' 200
          [bookmark ''21'' ''https://a.example/'', bookmark ''22'' ''https://b.example/'',
           folder ''23'' ''Docs'' 210 [bookmark ''24'' ''https://d.example/2'']],
        folder ''30'' ''Home'' 50 [bookmark ''31'' ''https://h.example/''],
        folder ''10'' ''Work'' 100
          [bookmark ''11'' ''https://a.example/'',
           folder ''12'' ''Docs'' 110 [bookmark ''13'' ''https://d.example/1'']],
        folder ''40'' ''Work'' 300
          [folder ''41'' ''Media'' 310 [bookmark ''42'' ''https://m.example/'']]]"

subsection \<open>The merge in the words of the specification\<close>

text \<open>
  The definitions of this subsection are not translated from the code. They follow the
  sentences of section 4.2 of the specification on the merge-duplicates routine, and are
  what the functions above are compared with.

  \<open>withEarlier\<close> pairs each element of a list with the elements in front of it.
\<close>

fun withEarlierFrom :: "'a list \<Rightarrow> 'a list \<Rightarrow> ('a list \<times> 'a) list" where
  "withEarlierFrom earlier [] = []"
| "withEarlierFrom earlier (x # xs) = (earlier, x) # withEarlierFrom (earlier @ [x]) xs"

definition withEarlier :: "'a list \<Rightarrow> ('a list \<times> 'a) list" where
  "withEarlier xs = withEarlierFrom [] xs"

text \<open>
  An item of the source folder that is moved into the target: "a bookmark with a new URL",
  one that no child of the target has, or "a nested subfolder with a unique title", one
  that no folder among the children of the target has.
\<close>

definition specIsMoved :: "bnode list \<Rightarrow> bnode \<Rightarrow> bool" where
  "specIsMoved targetChildren item \<longleftrightarrow>
     (if isFolder item
      then bn_title item \<notin> set (map bn_title (filter isFolder targetChildren))
      else bn_url item \<notin> set (map bn_url targetChildren))"

text \<open>
  The target folder after the source folder was merged into it. Its own children stay
  where they are; the first folder of each title among them has taken in, by the same
  merge and in their order, the source's subfolders of that title; behind them stand the
  items of the source that were moved, in their order. What the source's other items
  were is gone: they are discarded.
\<close>

function specMergedFolder :: "bnode \<Rightarrow> bnode \<Rightarrow> bnode" where
  "specMergedFolder target source =
     withChildren target
       (map (\<lambda>(earlier, child).
               if isFolder child \<and> folderGroup (bn_title child) earlier = []
               then foldl specMergedFolder child
                      (folderGroup (bn_title child) (bn_children source))
               else child)
            (withEarlier (bn_children target))
        @ filter (specIsMoved (bn_children target)) (bn_children source))"
  by pat_completeness auto

termination specMergedFolder
proof -
  have lt: "size x < size source" if "x \<in> set (bn_children source)" for x source :: bnode
    using that by (cases source) (auto simp: less_Suc_eq_le size_list_estimation')
  show ?thesis
    by (relation "measure (\<lambda>(target, source). size source)")
       (auto simp: folderGroup_def lt)
qed

text \<open>
  The calls the merge of the source folder into the target issues, item by item of the
  source: a bookmark whose URL a child of the target has is removed, a bookmark with a
  new URL is moved into the target; a nested subfolder whose title a folder of the target
  has is merged into the first such folder, as the source's earlier subfolders of that
  title have left it, and then removed; a nested subfolder with a unique title is moved.
\<close>

function specMergeCalls :: "bnode \<Rightarrow> bnode \<Rightarrow> bm_call list" where
  "specMergeCalls target source =
     concat (map (\<lambda>(earlier, item).
        if \<not> isFolder item then
          (if bn_url item \<in> set (map bn_url (bn_children target))
           then [Remove (bn_id item)]
           else [Move (bn_id item) (bn_id target)])
        else
          (if bn_title item \<in> set (map bn_title (filter isFolder (bn_children target)))
           then specMergeCalls
                  (foldl specMergedFolder
                     (hd (folderGroup (bn_title item) (bn_children target)))
                     (folderGroup (bn_title item) earlier))
                  item
                @ [Remove (bn_id item)]
           else [Move (bn_id item) (bn_id target)]))
      (withEarlier (bn_children source)))"
  by pat_completeness auto

termination specMergeCalls
proof -
  have lt: "size x < size source" if "x \<in> set (bn_children source)" for x source :: bnode
    using that by (cases source) (auto simp: less_Suc_eq_le size_list_estimation')
  have el: "x \<in> set xs" if "(e, x) \<in> set (withEarlierFrom pre xs)"
    for e x pre and xs :: "bnode list"
    using that by (induction xs arbitrary: pre) auto
  show ?thesis
    by (relation "measure (\<lambda>(target, source). size source)")
       (auto simp: withEarlier_def lt dest!: el)
qed

declare specMergedFolder.simps [simp del]

declare specMergeCalls.simps [simp del]

text \<open>
  The routine at startup: "group root-level subfolders by title; for each group with more
  than one folder, keep the oldest-created, recursively merge the others' contents into
  it [...], then delete the emptied source folders". \<open>specKept\<close> is the folder of a title
  that is kept, \<open>specOthers\<close> are the other folders of the title, oldest first.
  \<open>specRootChildren\<close> are the children of the root afterwards: what is not a folder, and of
  each title the kept folder with the others merged into it. \<open>specRootCalls\<close> are the calls
  issued, title by title in the order in which the titles first occur.
\<close>

definition specKept :: "string \<Rightarrow> bnode list \<Rightarrow> bnode" where
  "specKept title children = hd (oldestFirst (folderGroup title children))"

definition specOthers :: "string \<Rightarrow> bnode list \<Rightarrow> bnode list" where
  "specOthers title children = tl (oldestFirst (folderGroup title children))"

definition specRootChildren :: "bnode \<Rightarrow> bnode list" where
  "specRootChildren root =
     concat (map (\<lambda>child.
        if \<not> isFolder child then [child]
        else if bn_id child = bn_id (specKept (bn_title child) (bn_children root))
        then [foldl specMergedFolder (specKept (bn_title child) (bn_children root))
                (specOthers (bn_title child) (bn_children root))]
        else [])
      (bn_children root))"

definition specRootCalls :: "bnode \<Rightarrow> bm_call list" where
  "specRootCalls root =
     concat (map (\<lambda>title.
        concat (map (\<lambda>(earlier, source).
                  specMergeCalls
                    (foldl specMergedFolder (specKept title (bn_children root)) earlier) source
                  @ [Remove (bn_id source)])
                (withEarlier (specOthers title (bn_children root)))))
      (folderNames root))"

text \<open>
  For the proofs: the children of the target and the calls, as above, with the items of
  the source that were already handled and the children in front given as arguments.
\<close>

definition specChildrenFrom :: "bnode list \<Rightarrow> bnode list \<Rightarrow> bnode list \<Rightarrow> bnode list" where
  "specChildrenFrom front targetChildren sourceItems =
     map (\<lambda>(earlier, child).
            if isFolder child \<and> folderGroup (bn_title child) earlier = []
            then foldl specMergedFolder child (folderGroup (bn_title child) sourceItems)
            else child)
         (withEarlierFrom front targetChildren)"

definition specItemCalls :: "string \<Rightarrow> bnode list \<Rightarrow> bnode list \<times> bnode \<Rightarrow> bm_call list" where
  "specItemCalls targetId targetChildren = (\<lambda>(earlier, item).
        if \<not> isFolder item then
          (if bn_url item \<in> set (map bn_url targetChildren)
           then [Remove (bn_id item)]
           else [Move (bn_id item) targetId])
        else
          (if bn_title item \<in> set (map bn_title (filter isFolder targetChildren))
           then specMergeCalls
                  (foldl specMergedFolder
                     (hd (folderGroup (bn_title item) targetChildren))
                     (folderGroup (bn_title item) earlier))
                  item
                @ [Remove (bn_id item)]
           else [Move (bn_id item) targetId]))"

definition specCallsFrom :: "string \<Rightarrow> bnode list \<Rightarrow> bnode list \<Rightarrow> bnode list \<Rightarrow> bm_call list" where
  "specCallsFrom targetId targetChildren handled sourceItems =
     concat (map (specItemCalls targetId targetChildren) (withEarlierFrom handled sourceItems))"

text \<open>
  For the proofs: the children of the root once the groups of the given titles were
  merged, and the calls of one group.
\<close>

definition specChildrenFor :: "string set \<Rightarrow> bnode list \<Rightarrow> bnode list" where
  "specChildrenFor titles children =
     concat (map (\<lambda>child.
        if isFolder child \<and> bn_title child \<in> titles
        then (if bn_id child = bn_id (specKept (bn_title child) children)
              then [foldl specMergedFolder (specKept (bn_title child) children)
                      (specOthers (bn_title child) children)]
              else [])
        else [child])
      children)"

definition specGroupCalls :: "string \<Rightarrow> bnode list \<Rightarrow> bm_call list" where
  "specGroupCalls title children =
     concat (map (\<lambda>(earlier, source).
                  specMergeCalls (foldl specMergedFolder (specKept title children) earlier) source
                  @ [Remove (bn_id source)])
                (withEarlier (specOthers title children)))"

section \<open>Archived tabs: cap, de-duplication, eviction\<close>

lemma insort_key_snoc:
  "f a \<le> f x \<Longrightarrow> insort_key f a (ys @ [x]) = insort_key f a ys @ [x]"
  by (induction ys) auto

lemma insort_key_after_smaller:
  "f x < f a \<Longrightarrow> insort_key f a (x # ys) = x # insort_key f a ys"
  for f :: "'a \<Rightarrow> int"
  by simp

lemma sort_key_snoc_min:
  fixes f :: "'a \<Rightarrow> int"
  assumes "\<forall>y\<in>set xs. f x < f y"
  shows "sort_key f (xs @ [x]) = x # sort_key f xs"
  using assms by (induction xs) auto

lemma sort_key_snoc_max:
  fixes f :: "'a \<Rightarrow> int"
  assumes "\<forall>y\<in>set xs. f y \<le> f x"
  shows "sort_key f (xs @ [x]) = sort_key f xs @ [x]"
  using assms by (induction xs) (auto simp: insort_key_snoc)

lemma sorted_take_drop_le:
  fixes f :: "'a \<Rightarrow> int"
  assumes "sorted (map f l)" "x \<in> set (take n l)" "y \<in> set (drop n l)"
  shows "f x \<le> f y"
proof -
  have "sorted (map f (take n l) @ map f (drop n l))"
    using assms(1) by (simp flip: map_append)
  then show ?thesis
    using assms(2,3) by (auto simp: sorted_append)
qed

lemma urlArchived_iff: "urlArchived u ts \<longleftrightarrow> u \<in> at_url ` set ts"
  by (auto simp: urlArchived_def find_None_iff)

lemma addArchivedTab_fresh:
  assumes "validTabData d" "\<not> urlArchived (at_url d) ar"
  shows "addArchivedTab now (Some d) ar =
         take MAX_ARCHIVED_TABS (sortNewestFirst (ar @ [d\<lparr>at_archivedAt := now\<rparr>]))"
  using assms by (simp add: addArchivedTab_def validTabData_def urlArchived_def Let_def)

lemma addArchivedTab_skip:
  "\<not> validTabData d \<or> urlArchived (at_url d) ar \<Longrightarrow> addArchivedTab now (Some d) ar = ar"
  by (auto simp: addArchivedTab_def validTabData_def urlArchived_def)

lemma length_addArchivedTab:
  "length ar \<le> MAX_ARCHIVED_TABS \<Longrightarrow> length (addArchivedTab now td ar) \<le> MAX_ARCHIVED_TABS"
  by (auto simp: addArchivedTab_def Let_def split: option.splits)

lemma sortNewestFirst_newest:
  assumes "\<forall>t\<in>set ar. at_archivedAt t < at_archivedAt e"
  shows "sortNewestFirst (ar @ [e]) = e # sortNewestFirst ar"
  unfolding sortNewestFirst_def using assms by (intro sort_key_snoc_min) simp

lemma sortNewestFirst_oldest:
  assumes "\<forall>t\<in>set ar. at_archivedAt e \<le> at_archivedAt t"
  shows "sortNewestFirst (ar @ [e]) = sortNewestFirst ar @ [e]"
  unfolding sortNewestFirst_def using assms by (intro sort_key_snoc_max) simp

lemma set_sortNewestFirst [simp]: "set (sortNewestFirst ts) = set ts"
  by (simp add: sortNewestFirst_def)

lemma length_sortNewestFirst [simp]: "length (sortNewestFirst ts) = length ts"
  by (simp add: sortNewestFirst_def)

lemma evicted_oldest:
  assumes "e \<in> set (evictedBy now d ar)"
    and "k \<in> set (take MAX_ARCHIVED_TABS (sortNewestFirst (ar @ [d\<lparr>at_archivedAt := now\<rparr>])))"
  shows "at_archivedAt e \<le> at_archivedAt k"
proof -
  let ?l = "sortNewestFirst (ar @ [d\<lparr>at_archivedAt := now\<rparr>])"
  have "sorted (map (\<lambda>t. - at_archivedAt t) ?l)"
    by (simp add: sortNewestFirst_def)
  from sorted_take_drop_le [OF this assms(2)] assms(1)
  show ?thesis by (simp add: evictedBy_def)
qed

lemma addArchivedTab_partition:
  assumes "validTabData d" "\<not> urlArchived (at_url d) ar"
  shows "addArchivedTab now (Some d) ar @ evictedBy now d ar =
           sortNewestFirst (ar @ [d\<lparr>at_archivedAt := now\<rparr>])"
    and "length (addArchivedTab now (Some d) ar) \<le> MAX_ARCHIVED_TABS"
    and "length (evictedBy now d ar) = length ar + 1 - MAX_ARCHIVED_TABS"
  by (simp_all add: addArchivedTab_fresh [OF assms] evictedBy_def)

lemma addArchivedTab_evicts_oldest:
  assumes "validTabData d" "\<not> urlArchived (at_url d) ar"
    and "e \<in> set (evictedBy now d ar)" "k \<in> set (addArchivedTab now (Some d) ar)"
  shows "at_archivedAt e \<le> at_archivedAt k"
  using evicted_oldest [OF assms(3)] assms(4)
  by (simp add: addArchivedTab_fresh [OF assms(1,2)])

lemma addArchivedTab_keeps_new:
  assumes v: "validTabData d" and f: "\<not> urlArchived (at_url d) ar"
    and newer: "\<forall>t\<in>set ar. at_archivedAt t < now"
  shows "d\<lparr>at_archivedAt := now\<rparr> \<in> set (addArchivedTab now (Some d) ar)"
    and "d\<lparr>at_archivedAt := now\<rparr> \<notin> set (evictedBy now d ar)"
proof -
  let ?new = "d\<lparr>at_archivedAt := now\<rparr>"
  have s: "sortNewestFirst (ar @ [?new]) = ?new # sortNewestFirst ar"
    using newer by (intro sortNewestFirst_newest) simp
  have notin: "?new \<notin> set ar"
  proof
    assume "?new \<in> set ar"
    then have "at_url ?new \<in> at_url ` set ar" by (rule imageI)
    then show False using f by (simp add: urlArchived_iff)
  qed
  have "set (drop n (sortNewestFirst ar)) \<subseteq> set ar" for n
    using set_drop_subset [of n "sortNewestFirst ar"] by simp
  with notin have nd: "?new \<notin> set (drop n (sortNewestFirst ar))" for n
    by blast
  show "?new \<in> set (addArchivedTab now (Some d) ar)"
    using s by (simp add: addArchivedTab_fresh [OF v f] MAX_ARCHIVED_TABS_def)
  show "?new \<notin> set (evictedBy now d ar)"
    using s nd by (simp add: evictedBy_def MAX_ARCHIVED_TABS_def)
qed

text \<open>
  Claim C7, as amended. The archive never grows beyond \<open>MAX_ARCHIVED_TABS\<close> (100) by an
  add; an add whose URL is already archived leaves the archive as it was; a successful add
  keeps the first 100 records of the newest-first order and evicts the rest, so every
  evicted record is at least as old as every kept one; and when the clock value of the add
  is later than every stored \<open>archivedAt\<close>, the new record is kept and is not among the
  evicted ones.
\<close>

theorem addArchivedTab_cap_dedup_fifo:
  "(length ar \<le> MAX_ARCHIVED_TABS \<longrightarrow> length (addArchivedTab now td ar) \<le> MAX_ARCHIVED_TABS) \<and>
   (urlArchived (at_url d) ar \<longrightarrow> addArchivedTab now (Some d) ar = ar) \<and>
   (validTabData d \<and> \<not> urlArchived (at_url d) ar \<longrightarrow>
      addArchivedTab now (Some d) ar @ evictedBy now d ar =
        sortNewestFirst (ar @ [d\<lparr>at_archivedAt := now\<rparr>]) \<and>
      length (addArchivedTab now (Some d) ar) \<le> MAX_ARCHIVED_TABS \<and>
      length (evictedBy now d ar) = length ar + 1 - MAX_ARCHIVED_TABS \<and>
      (\<forall>e\<in>set (evictedBy now d ar). \<forall>k\<in>set (addArchivedTab now (Some d) ar).
         at_archivedAt e \<le> at_archivedAt k)) \<and>
   (validTabData d \<and> \<not> urlArchived (at_url d) ar \<and> (\<forall>t\<in>set ar. at_archivedAt t < now) \<longrightarrow>
      d\<lparr>at_archivedAt := now\<rparr> \<in> set (addArchivedTab now (Some d) ar) \<and>
      d\<lparr>at_archivedAt := now\<rparr> \<notin> set (evictedBy now d ar))"
  using length_addArchivedTab [of ar now td] addArchivedTab_skip [of d ar now]
    addArchivedTab_partition [of d ar now] addArchivedTab_evicts_oldest [of d ar _ now]
    addArchivedTab_keeps_new [of d ar now]
  by blast

lemma fullArchive_facts:
  "length fullArchive = 100"
  "\<forall>t\<in>set fullArchive. at_archivedAt t = 5000"
  "\<not> urlArchived ''https://new.example/'' fullArchive"
  by (auto simp: fullArchive_def urlArchived_iff)

text \<open>
  The claim as stated says the new record is never the one evicted. With the archive at the
  cap and every stored record stamped later than the clock value of the add (the clock
  stepped back), the new record is the oldest and is the one evicted.
\<close>

theorem addArchivedTab_drops_new_counterexample:
  "validTabData lateTab \<and> \<not> urlArchived (at_url lateTab) fullArchive \<and>
   length fullArchive = MAX_ARCHIVED_TABS \<and>
   lateTab\<lparr>at_archivedAt := 4000\<rparr> \<notin> set (addArchivedTab 4000 (Some lateTab) fullArchive) \<and>
   lateTab\<lparr>at_archivedAt := 4000\<rparr> \<in> set (evictedBy 4000 lateTab fullArchive)"
proof -
  let ?new = "lateTab\<lparr>at_archivedAt := 4000\<rparr>"
  have v: "validTabData lateTab" by (simp add: validTabData_def lateTab_def)
  have f: "\<not> urlArchived (at_url lateTab) fullArchive"
    using fullArchive_facts(3) by (simp add: lateTab_def)
  have "sortNewestFirst (fullArchive @ [?new]) = sortNewestFirst fullArchive @ [?new]"
    using fullArchive_facts(2) by (intro sortNewestFirst_oldest) simp
  then have "addArchivedTab 4000 (Some lateTab) fullArchive = sortNewestFirst fullArchive"
    and "evictedBy 4000 lateTab fullArchive = [?new]"
    using fullArchive_facts(1)
    by (simp_all add: addArchivedTab_fresh [OF v f] evictedBy_def MAX_ARCHIVED_TABS_def)
  moreover have "?new \<notin> set fullArchive"
    using fullArchive_facts(2) by auto
  ultimately show ?thesis
    using v f fullArchive_facts(1) by (simp add: MAX_ARCHIVED_TABS_def)
qed

theorem addArchivedTab_cap_dedup_fifo_witness:
  "length fullArchive \<le> MAX_ARCHIVED_TABS \<and>
   urlArchived (at_url (hd fullArchive)) fullArchive \<and>
   validTabData lateTab \<and> \<not> urlArchived (at_url lateTab) fullArchive \<and>
   list_all (\<lambda>t. at_archivedAt t < 6000) fullArchive \<and>
   length (addArchivedTab 6000 (Some lateTab) fullArchive) \<le> MAX_ARCHIVED_TABS \<and>
   addArchivedTab 6000 (Some (hd fullArchive)) fullArchive = fullArchive \<and>
   length (evictedBy 6000 lateTab fullArchive) = 1 \<and>
   lateTab\<lparr>at_archivedAt := 6000\<rparr> \<in> set (addArchivedTab 6000 (Some lateTab) fullArchive) \<and>
   lateTab\<lparr>at_archivedAt := 6000\<rparr> \<notin> set (evictedBy 6000 lateTab fullArchive)"
proof -
  have l: "length fullArchive \<le> MAX_ARCHIVED_TABS"
    using fullArchive_facts(1) by (simp add: MAX_ARCHIVED_TABS_def)
  have "fullArchive \<noteq> []" using fullArchive_facts(1) by auto
  then have u: "urlArchived (at_url (hd fullArchive)) fullArchive"
    by (simp add: urlArchived_iff)
  have v: "validTabData lateTab" by (simp add: validTabData_def lateTab_def)
  have f: "\<not> urlArchived (at_url lateTab) fullArchive"
    using fullArchive_facts(3) by (simp add: lateTab_def)
  have n: "\<forall>t\<in>set fullArchive. at_archivedAt t < 6000"
    using fullArchive_facts(2) by simp
  show ?thesis
    using addArchivedTab_cap_dedup_fifo [of fullArchive 6000 "Some lateTab" lateTab]
      addArchivedTab_cap_dedup_fifo [of fullArchive 6000 "Some (hd fullArchive)" "hd fullArchive"]
      l u v f n fullArchive_facts(1)
    by (simp add: MAX_ARCHIVED_TABS_def list_all_iff)
qed

section \<open>Reconciliation: helper facts\<close>

subsection \<open>uniqPreserveOrder\<close>

lemma set_uniqFrom: "set (uniqFrom seen xs) = set xs - seen - {0}"
  by (induction xs arbitrary: seen) auto

lemma distinct_uniqFrom: "distinct (uniqFrom seen xs)"
  by (induction xs arbitrary: seen) (auto simp: set_uniqFrom)

lemma uniqFrom_id:
  "distinct xs \<Longrightarrow> 0 \<notin> set xs \<Longrightarrow> set xs \<inter> seen = {} \<Longrightarrow> uniqFrom seen xs = xs"
  by (induction xs arbitrary: seen) auto

lemma set_uniqPreserveOrder: "set (uniqPreserveOrder xs) = set xs - {0}"
  by (simp add: uniqPreserveOrder_def set_uniqFrom)

lemma distinct_uniqPreserveOrder: "distinct (uniqPreserveOrder xs)"
  by (simp add: uniqPreserveOrder_def distinct_uniqFrom)

lemma uniqPreserveOrder_id:
  "distinct xs \<Longrightarrow> 0 \<notin> set xs \<Longrightarrow> uniqPreserveOrder xs = xs"
  by (simp add: uniqPreserveOrder_def uniqFrom_id)

subsection \<open>desired order\<close>

lemma desiredBookmarks_props:
  "distinct (desiredBookmarks G sp)"
  "set (desiredBookmarks G sp) = (set (spaceBookmarks sp) \<inter> G) - {0}"
  by (auto simp: desiredBookmarks_def distinct_uniqPreserveOrder set_uniqPreserveOrder)

lemma desiredTemps_props:
  "distinct (desiredTemps G sp)"
  "set (desiredTemps G sp) = (set (temporaryTabs sp) \<inter> G) - set (spaceBookmarks sp) - {0}"
  by (auto simp: desiredTemps_def distinct_uniqPreserveOrder set_uniqPreserveOrder
      desiredBookmarks_props)

lemma desiredGroupOrder_eq:
  "desiredGroupOrder G sp = desiredBookmarks G sp @ desiredTemps G sp"
  unfolding desiredGroupOrder_def
  by (rule uniqPreserveOrder_id) (auto simp: desiredBookmarks_props desiredTemps_props)

lemma desiredGroupOrder_props:
  "distinct (desiredGroupOrder G sp)"
  "set (desiredGroupOrder G sp) \<subseteq> G"
  "0 \<notin> set (desiredGroupOrder G sp)"
  by (auto simp: desiredGroupOrder_eq desiredBookmarks_props desiredTemps_props)

subsection \<open>the group's tabs\<close>

lemma sorted_fst_filter_enumerate: "sorted (map fst (filter P (enumerate n xs)))"
  by (rule sorted_filter) (simp add: map_fst_enumerate)

lemma snd_filter_enumerate:
  "map snd (filter (\<lambda>(i, t). P t) (enumerate n xs)) = filter P xs"
  by (induction xs arbitrary: n) auto

lemma hd_filter_enumerate:
  "filter P xs \<noteq> [] \<Longrightarrow>
   fst (hd (filter (\<lambda>(i, t). P t) (enumerate n xs))) = n + length (takeWhile (\<lambda>t. \<not> P t) xs)"
  by (induction xs arbitrary: n) auto

lemma groupTabsUnpinned_eq:
  "groupTabsUnpinned gid ts = filter (\<lambda>(i, t). inGroup gid t) (enumerate 0 ts)"
proof -
  have "sort_key fst (tabs_query_group gid ts) = tabs_query_group gid ts"
    unfolding tabs_query_group_def
    by (rule sort_key_id_if_sorted) (rule sorted_fst_filter_enumerate)
  then show ?thesis
    by (auto simp: groupTabsUnpinned_def tabs_query_group_def inGroup_def intro: filter_cong)
qed

lemma map_case_snd: "map (\<lambda>(i, t). f t) xs = map f (map snd xs)"
  by (induction xs) auto

lemma map_id_unpinned:
  "map (\<lambda>(i, t). tab_id t) (groupTabsUnpinned gid ts) = map tab_id (filter (inGroup gid) ts)"
  unfolding map_case_snd groupTabsUnpinned_eq snd_filter_enumerate ..

lemma currentGroupOrder_eq:
  "currentGroupOrder gid ts = map tab_id (filter (inGroup gid) ts)"
  by (simp add: currentGroupOrder_def map_id_unpinned)

lemma unpinned_Nil_iff:
  "groupTabsUnpinned gid ts = [] \<longleftrightarrow> currentGroupOrder gid ts = []"
  by (simp add: currentGroupOrder_def)

lemma groupStartIndex_eq:
  "currentGroupOrder gid ts \<noteq> [] \<Longrightarrow>
   fst (hd (groupTabsUnpinned gid ts)) = length (takeWhile (\<lambda>t. \<not> inGroup gid t) ts)"
  using hd_filter_enumerate [of "inGroup gid" ts 0]
  by (simp add: groupTabsUnpinned_eq currentGroupOrder_eq)

subsection \<open>the host's move\<close>

lemma move_one_split:
  assumes "tab_id t = d" "\<forall>u\<in>set P \<union> set A. tab_id u \<noteq> d"
  shows "move_one d (length P) (P @ A @ t # B) = (P @ [t]) @ (A @ B)"
proof -
  have dw: "dropWhile (\<lambda>t. tab_id t \<noteq> d) (P @ A @ t # B) = t # B"
    using assms by (simp add: dropWhile_append3 dropWhile_append)
  have tw: "takeWhile (\<lambda>t. tab_id t \<noteq> d) (P @ A @ t # B) = P @ A"
    using assms by (simp add: takeWhile_append takeWhile_tail)
  show ?thesis
    by (simp add: move_one_def dw tw)
qed

lemma filter_drop_absent:
  "\<forall>u\<in>set X. f u \<noteq> d \<Longrightarrow>
   filter (\<lambda>t. f t \<noteq> d \<and> f t \<notin> set ds) X = filter (\<lambda>t. f t \<notin> set ds) X"
  by (induction X) auto

lemma host_move_block:
  assumes "distinct (map tab_id R)" "distinct D" "set D \<subseteq> tab_id ` set R"
    "\<forall>t\<in>set P. tab_id t \<notin> set D"
  shows "\<exists>Tb. host_move D (length P) (P @ R) = P @ Tb @ filter (\<lambda>t. tab_id t \<notin> set D) R \<and>
              map tab_id Tb = D \<and> set Tb \<subseteq> set R"
  using assms
proof (induction D arbitrary: P R)
  case Nil
  then show ?case by simp
next
  case (Cons d ds)
  from Cons.prems(3) obtain t where t: "t \<in> set R" "tab_id t = d" by auto
  then obtain A B where R: "R = A @ t # B" by (meson split_list)
  have "d \<notin> tab_id ` set A" "d \<notin> tab_id ` set B"
    using Cons.prems(1) R t(2) by auto
  then have nd: "\<forall>u\<in>set A \<union> set B. tab_id u \<noteq> d"
    by blast
  have m: "move_one d (length P) (P @ R) = (P @ [t]) @ (A @ B)"
    unfolding R using t(2) nd Cons.prems(4) by (intro move_one_split) auto
  have d1: "distinct (map tab_id (A @ B))" using Cons.prems(1) R by auto
  have d2: "distinct ds" using Cons.prems(2) by simp
  have d3: "set ds \<subseteq> tab_id ` set (A @ B)"
  proof
    fix x assume x: "x \<in> set ds"
    then have "x \<noteq> d" using Cons.prems(2) by auto
    moreover have "x \<in> tab_id ` set R" using x Cons.prems(3) by auto
    ultimately show "x \<in> tab_id ` set (A @ B)" using R t(2) by auto
  qed
  have d4: "\<forall>u\<in>set (P @ [t]). tab_id u \<notin> set ds"
    using Cons.prems(2,4) t(2) by auto
  from Cons.IH [OF d1 d2 d3 d4] obtain Tb where
    Tb: "host_move ds (length (P @ [t])) ((P @ [t]) @ (A @ B)) =
           (P @ [t]) @ Tb @ filter (\<lambda>t. tab_id t \<notin> set ds) (A @ B)"
        "map tab_id Tb = ds" "set Tb \<subseteq> set (A @ B)"
    by blast
  have f: "filter (\<lambda>t. tab_id t \<notin> set (d # ds)) R = filter (\<lambda>t. tab_id t \<notin> set ds) (A @ B)"
    unfolding R using t(2) nd by (simp add: ball_Un filter_drop_absent)
  have e1: "host_move (d # ds) (length P) (P @ R) =
              P @ (t # Tb) @ filter (\<lambda>t. tab_id t \<notin> set (d # ds)) R"
    using Tb(1) m f by simp
  have e2: "map tab_id (t # Tb) = d # ds" using Tb(2) t(2) by simp
  have e3: "set (t # Tb) \<subseteq> set R" using Tb(3) R by auto
  show ?case
    by (rule exI [of _ "t # Tb"]) (intro conjI e1 e2 e3)
qed

lemma group_order_after_move:
  assumes dist: "distinct (map tab_id ts)" and dD: "distinct D"
    and sub: "set D \<subseteq> set (currentGroupOrder gid ts)"
  shows "currentGroupOrder gid (host_move D (length (takeWhile (\<lambda>t. \<not> inGroup gid t) ts)) ts) =
         D @ filter (\<lambda>i. i \<notin> set D) (currentGroupOrder gid ts)"
proof -
  define P where "P = takeWhile (\<lambda>t. \<not> inGroup gid t) ts"
  define R where "R = dropWhile (\<lambda>t. \<not> inGroup gid t) ts"
  have ts: "ts = P @ R" by (simp add: P_def R_def)
  have fP: "filter (inGroup gid) P = []"
    unfolding P_def by (induction ts) auto
  have cur: "currentGroupOrder gid ts = map tab_id (filter (inGroup gid) R)"
    by (simp add: currentGroupOrder_eq ts fP)
  have dR: "distinct (map tab_id R)" using dist ts by simp
  have disj: "tab_id ` set P \<inter> tab_id ` set R = {}" using dist ts by simp
  have subR: "set D \<subseteq> tab_id ` set R" using sub cur by auto
  have nP: "\<forall>t\<in>set P. tab_id t \<notin> set D" using subR disj by blast
  from host_move_block [OF dR dD subR nP] obtain Tb where
    Tb: "host_move D (length P) (P @ R) = P @ Tb @ filter (\<lambda>t. tab_id t \<notin> set D) R"
      "map tab_id Tb = D" "set Tb \<subseteq> set R"
    by blast
  have inG: "inGroup gid t" if "t \<in> set Tb" for t
  proof -
    have "tab_id t \<in> set D" using that Tb(2) by (metis image_eqI set_map)
    then obtain u where u: "u \<in> set R" "inGroup gid u" "tab_id u = tab_id t"
      using sub cur by auto
    have "t \<in> set R" using that Tb(3) by auto
    with u(1,3) dR have "u = t" by (meson distinct_map inj_onD)
    with u(2) show ?thesis by simp
  qed
  then have fTb: "filter (inGroup gid) Tb = Tb" by (simp add: filter_id_conv)
  have fR: "map tab_id (filter (inGroup gid) (filter (\<lambda>t. tab_id t \<notin> set D) R)) =
            filter (\<lambda>i. i \<notin> set D) (map tab_id (filter (inGroup gid) R))"
    by (induction R) auto
  show ?thesis
    unfolding P_def [symmetric]
    using Tb(1,2) fP fTb fR cur by (simp add: currentGroupOrder_eq ts)
qed

subsection \<open>What a call changes\<close>

lemma find_updateSpace:
  "List.find (\<lambda>s. space_id s = sid) ss = Some s0 \<Longrightarrow> space_id (f s0) = sid \<Longrightarrow>
   List.find (\<lambda>s. space_id s = sid) (updateSpace sid f ss) = Some (f s0)"
  by (induction ss) (auto split: if_splits)

lemma updateSpace_same:
  "List.find (\<lambda>s. space_id s = sid) ss = Some s0 \<Longrightarrow> updateSpace sid (\<lambda>_. s0) ss = ss"
  by (induction ss) (auto split: if_splits)

lemma space_id_adoptChromeOrder [simp]:
  "space_id (adoptChromeOrder co m sp) = space_id sp"
  by (simp add: adoptChromeOrder_def Let_def split: option.splits)

lemma space_id_spaceAfterSource [simp]:
  "space_id (spaceAfterSource os co sp) = space_id sp"
  by (simp add: spaceAfterSource_def)

lemma find_space_id:
  "List.find (\<lambda>s. space_id s = sid) ss = Some s0 \<Longrightarrow> space_id s0 = sid"
  by (auto simp: find_Some_iff)

lemma updateTempDom_fields [simp]:
  "spaces (updateTempDom ito sid temps st) = spaces st"
  "host_tabs (updateTempDom ito sid temps st) = host_tabs st"
  "move_calls (updateTempDom ito sid temps st) = move_calls st"
  "timers (updateTempDom ito sid temps st) = timers st"
  "next_timer (updateTempDom ito sid temps st) = next_timer st"
  "reconcileRetryBySpace (updateTempDom ito sid temps st) = reconcileRetryBySpace st"
  "storage_writes (updateTempDom ito sid temps st) = storage_writes st"
  "logs (updateTempDom ito sid temps st) = logs st"
  by (simp_all add: updateTempDom_def Let_def split: option.splits)

lemma saveSpaces_fields [simp]:
  "spaces (saveSpaces st) = spaces st"
  "host_tabs (saveSpaces st) = host_tabs st"
  "move_calls (saveSpaces st) = move_calls st"
  "timers (saveSpaces st) = timers st"
  "next_timer (saveSpaces st) = next_timer st"
  "reconcileRetryBySpace (saveSpaces st) = reconcileRetryBySpace st"
  "storage_writes (saveSpaces st) = storage_writes st @ [spaces st]"
  "logs (saveSpaces st) = logs st"
  by (simp_all add: saveSpaces_def)

lemma markTabsSyncingToChrome_fields [simp]:
  "spaces (markTabsSyncingToChrome ids st) = spaces st"
  "host_tabs (markTabsSyncingToChrome ids st) = host_tabs st"
  "move_calls (markTabsSyncingToChrome ids st) = move_calls st"
  "timers (markTabsSyncingToChrome ids st) = timers st"
  "next_timer (markTabsSyncingToChrome ids st) = next_timer st"
  "reconcileRetryBySpace (markTabsSyncingToChrome ids st) = reconcileRetryBySpace st"
  "storage_writes (markTabsSyncingToChrome ids st) = storage_writes st"
  "logs (markTabsSyncingToChrome ids st) = logs st"
  by (simp_all add: markTabsSyncingToChrome_def Let_def)

lemma unmarkTabsSyncingToChrome_fields [simp]:
  "spaces (unmarkTabsSyncingToChrome ids st) = spaces st"
  "host_tabs (unmarkTabsSyncingToChrome ids st) = host_tabs st"
  "move_calls (unmarkTabsSyncingToChrome ids st) = move_calls st"
  "timers (unmarkTabsSyncingToChrome ids st) = timers st"
  "next_timer (unmarkTabsSyncingToChrome ids st) = next_timer st"
  "reconcileRetryBySpace (unmarkTabsSyncingToChrome ids st) = reconcileRetryBySpace st"
  "storage_writes (unmarkTabsSyncingToChrome ids st) = storage_writes st"
  "logs (unmarkTabsSyncingToChrome ids st) = logs st"
  by (simp_all add: unmarkTabsSyncingToChrome_def)

lemma scheduleReconcileRetry_fields [simp]:
  "spaces (scheduleReconcileRetry sid os a d r st) = spaces st"
  "host_tabs (scheduleReconcileRetry sid os a d r st) = host_tabs st"
  "move_calls (scheduleReconcileRetry sid os a d r st) = move_calls st"
  "storage_writes (scheduleReconcileRetry sid os a d r st) = storage_writes st"
  by (simp_all add: scheduleReconcileRetry_def Let_def)

lemma onMoveError_fields [simp]:
  "spaces (snd (onMoveError sid os ds msg st)) = spaces st"
  "host_tabs (snd (onMoveError sid os ds msg st)) = host_tabs st"
  "move_calls (snd (onMoveError sid os ds msg st)) = move_calls st"
  "storage_writes (snd (onMoveError sid os ds msg st)) = storage_writes st"
  by (simp_all add: onMoveError_def Let_def)

lemma onMoveError_thrown:
  "fst (onMoveError sid os ds msg st) =
     (if includes_str msg ''Tabs cannot be edited right now'' then None else Some msg)"
  by (simp add: onMoveError_def Let_def)

lemma isSameOrder_iff: "isSameOrder cur desired \<longleftrightarrow> cur = desired"
  unfolding isSameOrder_def list_all_iff list_eq_iff_nth_eq [of cur desired]
  by auto

text \<open>The call past its two early returns, field by field.\<close>

lemma reconcile_fields:
  fixes st :: app_state and spaceId :: int and os :: opts and space0 :: space
  assumes found: "List.find (\<lambda>s. space_id s = spaceId) (spaces st) = Some space0"
    and nz: "spaceId \<noteq> 0"
    and ne: "currentGroupOrder spaceId (host_tabs st) \<noteq> []"
  defines "cur \<equiv> currentGroupOrder spaceId (host_tabs st)"
  defines "sp \<equiv> spaceAfterSource os cur space0"
  defines "desired \<equiv> desiredGroupOrder (set cur) sp"
  defines "g \<equiv> length (takeWhile (\<lambda>t. \<not> inGroup spaceId t) (host_tabs st))"
  shows "spaces (snd (reconcileSpaceTabOrdering ito oc spaceId os st)) =
           updateSpace spaceId (\<lambda>_. sp) (spaces st)"
    and "move_calls (snd (reconcileSpaceTabOrdering ito oc spaceId os st)) =
           (if isSameOrder cur desired then move_calls st else move_calls st @ [(desired, g)])"
    and "host_tabs (snd (reconcileSpaceTabOrdering ito oc spaceId os st)) =
           (if \<not> isSameOrder cur desired \<and> oc = Accepted then host_move desired g (host_tabs st)
            else host_tabs st)"
    and "fst (reconcileSpaceTabOrdering ito oc spaceId os st) =
           (case oc of
              Accepted \<Rightarrow> Returned
            | Rejected msg \<Rightarrow>
                if isSameOrder cur desired \<or> includes_str msg ''Tabs cannot be edited right now''
                then Returned else Threw msg)"
    and "storage_writes (snd (reconcileSpaceTabOrdering ito oc spaceId os st)) =
           (case oc of
              Accepted \<Rightarrow> storage_writes st @ [updateSpace spaceId (\<lambda>_. sp) (spaces st)]
            | Rejected msg \<Rightarrow>
                if isSameOrder cur desired \<or> includes_str msg ''Tabs cannot be edited right now''
                then storage_writes st @ [updateSpace spaceId (\<lambda>_. sp) (spaces st)]
                else storage_writes st)"
proof -
  have u: "groupTabsUnpinned spaceId (host_tabs st) \<noteq> []"
    using ne by (simp add: unpinned_Nil_iff)
  have m: "map (\<lambda>(i, t). tab_id t) (groupTabsUnpinned spaceId (host_tabs st)) =
           currentGroupOrder spaceId (host_tabs st)"
    by (simp add: currentGroupOrder_def)
  have gi: "fst (hd (groupTabsUnpinned spaceId (host_tabs st))) =
            length (takeWhile (\<lambda>t. \<not> inGroup spaceId t) (host_tabs st))"
    using ne by (rule groupStartIndex_eq)
  note defs = reconcileSpaceTabOrdering_def found nz u m gi Let_def onMoveError_thrown
  show "spaces (snd (reconcileSpaceTabOrdering ito oc spaceId os st)) =
           updateSpace spaceId (\<lambda>_. sp) (spaces st)"
    unfolding cur_def sp_def desired_def g_def
    by (cases oc) (simp_all add: defs split_beta split: option.splits)
  show "move_calls (snd (reconcileSpaceTabOrdering ito oc spaceId os st)) =
           (if isSameOrder cur desired then move_calls st else move_calls st @ [(desired, g)])"
    unfolding cur_def sp_def desired_def g_def
    by (cases oc) (simp_all add: defs split_beta split: option.splits)
  show "host_tabs (snd (reconcileSpaceTabOrdering ito oc spaceId os st)) =
           (if \<not> isSameOrder cur desired \<and> oc = Accepted then host_move desired g (host_tabs st)
            else host_tabs st)"
    unfolding cur_def sp_def desired_def g_def
    by (cases oc) (simp_all add: defs split_beta split: option.splits)
  show "fst (reconcileSpaceTabOrdering ito oc spaceId os st) =
           (case oc of
              Accepted \<Rightarrow> Returned
            | Rejected msg \<Rightarrow>
                if isSameOrder cur desired \<or> includes_str msg ''Tabs cannot be edited right now''
                then Returned else Threw msg)"
    unfolding cur_def sp_def desired_def g_def
    by (cases oc) (simp_all add: defs split_beta split: option.splits)
  show "storage_writes (snd (reconcileSpaceTabOrdering ito oc spaceId os st)) =
           (case oc of
              Accepted \<Rightarrow> storage_writes st @ [updateSpace spaceId (\<lambda>_. sp) (spaces st)]
            | Rejected msg \<Rightarrow>
                if isSameOrder cur desired \<or> includes_str msg ''Tabs cannot be edited right now''
                then storage_writes st @ [updateSpace spaceId (\<lambda>_. sp) (spaces st)]
                else storage_writes st)"
    unfolding cur_def sp_def desired_def g_def
    by (cases oc) (simp_all add: defs split_beta split: option.splits)
qed

subsection \<open>Index functions\<close>

lemma findIndex_ge: "- 1 \<le> findIndex P xs"
  by (induction xs) (auto simp: Let_def)

lemma findIndex_neg_iff: "findIndex P xs = - 1 \<longleftrightarrow> (\<forall>x\<in>set xs. \<not> P x)"
proof (induction xs)
  case Nil
  then show ?case by simp
next
  case (Cons a xs)
  have "findIndex P xs + 1 \<noteq> - 1"
    using findIndex_ge [of P xs] by linarith
  with Cons show ?case by (auto simp: Let_def)
qed

lemma findIndex_some:
  "\<exists>x\<in>set xs. P x \<Longrightarrow> findIndex P xs = int (length (takeWhile (\<lambda>x. \<not> P x) xs))"
  by (induction xs) (auto simp: Let_def findIndex_neg_iff)

lemma takeWhile_shorter_iff:
  assumes "m \<in> set xs" "Q m"
  shows "length (takeWhile Q xs) < length (takeWhile (\<lambda>x. x \<noteq> m) xs) \<longleftrightarrow>
         \<not> (\<forall>x\<in>set (takeWhile (\<lambda>x. x \<noteq> m) xs). Q x)"
  using assms by (induction xs) auto

lemma moved_behind_iff:
  assumes "m \<in> B"
  shows "findIndex (\<lambda>i. i \<notin> B) cur \<noteq> - 1 \<and> indexOf cur m \<noteq> - 1 \<and>
         indexOf cur m > findIndex (\<lambda>i. i \<notin> B) cur \<longleftrightarrow>
         m \<in> set cur \<and> \<not> set (takeWhile (\<lambda>i. i \<noteq> m) cur) \<subseteq> B"
proof (cases "m \<in> set cur")
  case False
  then show ?thesis by (simp add: indexOf_def findIndex_neg_iff)
next
  case True
  then have io: "indexOf cur m = int (length (takeWhile (\<lambda>x. x \<noteq> m) cur))"
    unfolding indexOf_def using findIndex_some [of cur "\<lambda>x. x = m"] by auto
  show ?thesis
  proof (cases "\<exists>x\<in>set cur. x \<notin> B")
    case ex: True
    then have fi: "findIndex (\<lambda>i. i \<notin> B) cur = int (length (takeWhile (\<lambda>x. x \<in> B) cur))"
      using findIndex_some [of cur "\<lambda>i. i \<notin> B"] by simp
    show ?thesis
      using takeWhile_shorter_iff [OF True, of "\<lambda>x. x \<in> B"] assms True
      by (auto simp: io fi)
  next
    case False
    then have "findIndex (\<lambda>i. i \<notin> B) cur = - 1" by (simp add: findIndex_neg_iff)
    moreover have "set (takeWhile (\<lambda>i. i \<noteq> m) cur) \<subseteq> B"
      using False set_takeWhileD by fastforce
    ultimately show ?thesis by simp
  qed
qed

text \<open>The moved tab is a bookmark tab that the host shows behind some temporary tab.\<close>

lemma adoptChromeOrder_temporaryTabs:
  "temporaryTabs (adoptChromeOrder cur mv sp) =
     uniqPreserveOrder (filter (\<lambda>i. i \<notin> set (spaceBookmarks sp)) cur)"
  by (simp add: adoptChromeOrder_def Let_def split: option.splits)

lemma adoptChromeOrder_spaceBookmarks:
  "spaceBookmarks (adoptChromeOrder cur mv sp) =
     (case mv of
        None \<Rightarrow> spaceBookmarks sp
      | Some m \<Rightarrow>
          if m \<noteq> 0 \<and> m \<in> set (spaceBookmarks sp) \<and> m \<in> set cur \<and>
             \<not> set (takeWhile (\<lambda>i. i \<noteq> m) cur) \<subseteq> set (spaceBookmarks sp)
          then filter (\<lambda>i. i \<noteq> m) (spaceBookmarks sp) @ [m]
          else spaceBookmarks sp)"
proof (cases mv)
  case None
  then show ?thesis by (simp add: adoptChromeOrder_def)
next
  case (Some m)
  show ?thesis
  proof (cases "m \<noteq> 0 \<and> m \<in> set (spaceBookmarks sp)")
    case True
    then have "m \<in> set (spaceBookmarks sp)" by simp
    from moved_behind_iff [OF this, of cur] True Some show ?thesis
      by (simp add: adoptChromeOrder_def Let_def)
  next
    case False
    with Some show ?thesis by (auto simp: adoptChromeOrder_def Let_def)
  qed
qed

lemma set_spaceBookmarks_adoptChromeOrder:
  "set (spaceBookmarks (adoptChromeOrder cur mv sp)) = set (spaceBookmarks sp)"
  by (auto simp: adoptChromeOrder_spaceBookmarks split: option.splits)

subsection \<open>The host's order after a call\<close>

lemma desiredGroupOrder_set:
  "set (desiredGroupOrder G sp) = (set (spaceBookmarks sp) \<union> set (temporaryTabs sp)) \<inter> G - {0}"
  by (auto simp: desiredGroupOrder_eq desiredBookmarks_props desiredTemps_props)

lemma reconcile_group_order:
  fixes st :: app_state and os :: opts and spaceId :: int and space0 :: space
  defines "cur \<equiv> currentGroupOrder spaceId (host_tabs st)"
  defines "sp \<equiv> spaceAfterSource os cur space0"
  assumes found: "List.find (\<lambda>s. space_id s = spaceId) (spaces st) = Some space0"
    and nz: "spaceId \<noteq> 0"
    and ne: "currentGroupOrder spaceId (host_tabs st) \<noteq> []"
    and dist: "distinct (map tab_id (host_tabs st))"
  shows "currentGroupOrder spaceId
           (host_tabs (snd (reconcileSpaceTabOrdering ito Accepted spaceId os st))) =
         desiredGroupOrder (set cur) sp @
         filter (\<lambda>i. i \<notin> set (desiredGroupOrder (set cur) sp)) cur"
proof (cases "isSameOrder cur (desiredGroupOrder (set cur) sp)")
  case True
  then have e: "cur = desiredGroupOrder (set cur) sp" by (simp add: isSameOrder_iff)
  have "filter (\<lambda>i. i \<notin> set cur) cur = []" by (simp add: filter_empty_conv)
  with e have "filter (\<lambda>i. i \<notin> set (desiredGroupOrder (set cur) sp)) cur = []" by simp
  moreover have "host_tabs (snd (reconcileSpaceTabOrdering ito Accepted spaceId os st)) = host_tabs st"
    using reconcile_fields(3) [OF found nz ne, of ito Accepted os] True
    by (simp add: cur_def sp_def)
  ultimately show ?thesis using e by (simp add: cur_def [symmetric])
next
  case False
  let ?d = "desiredGroupOrder (set cur) sp"
  have h: "host_tabs (snd (reconcileSpaceTabOrdering ito Accepted spaceId os st)) =
           host_move ?d (length (takeWhile (\<lambda>t. \<not> inGroup spaceId t) (host_tabs st))) (host_tabs st)"
    using reconcile_fields(3) [OF found nz ne, of ito Accepted os] False
    by (simp add: cur_def sp_def)
  show ?thesis
    unfolding h cur_def
    by (rule group_order_after_move [OF dist])
       (simp_all add: desiredGroupOrder_props cur_def [symmetric])
qed

subsection \<open>A reconciled group stays as it is\<close>

lemma uniqFrom_drop_zero:
  "uniqFrom seen (filter (\<lambda>i. P i \<and> i \<noteq> 0) xs) = uniqFrom seen (filter P xs)"
  by (induction xs arbitrary: seen) auto

lemma uniqPreserveOrder_drop_zero:
  "uniqPreserveOrder (filter (\<lambda>i. P i \<and> i \<noteq> 0) xs) = uniqPreserveOrder (filter P xs)"
  by (simp add: uniqPreserveOrder_def uniqFrom_drop_zero)

lemma desiredBookmarks_cong:
  "spaceBookmarks sp' = spaceBookmarks sp \<Longrightarrow> desiredBookmarks G sp' = desiredBookmarks G sp"
  by (simp add: desiredBookmarks_def)

lemma takeWhile_in_prefix:
  "m \<in> set B \<Longrightarrow> set (takeWhile (\<lambda>i. i \<noteq> m) (B @ T)) \<subseteq> set B"
  by (induction B) auto

lemma desired_fixpoint:
  assumes c: "cur' = desiredGroupOrder G sp"
  shows "desiredGroupOrder (set cur') (spaceAfterSource os2 cur' sp) = cur'"
proof -
  let ?B = "desiredBookmarks G sp" and ?T = "desiredTemps G sp"
  let ?G' = "set cur'"
  have cur': "cur' = ?B @ ?T" using c by (simp add: desiredGroupOrder_eq)
  have Bsub: "set ?B \<subseteq> set (spaceBookmarks sp)" by (auto simp: desiredBookmarks_props)
  have Tdis: "set ?T \<inter> set (spaceBookmarks sp) = {}" by (auto simp: desiredTemps_props)
  have nzT: "0 \<notin> set ?T" and dT: "distinct ?T" by (auto simp: desiredTemps_props)
  have nzB: "0 \<notin> set ?B" and dB: "distinct ?B" by (auto simp: desiredBookmarks_props)
  have BT: "set ?B \<inter> set ?T = {}" using Bsub Tdis by auto
  \<comment> \<open>the bookmark block computed against the new group set is the old one\<close>
  have B': "desiredBookmarks ?G' sp = ?B"
  proof -
    have "filter (\<lambda>i. i \<in> ?G') (spaceBookmarks sp) =
          filter (\<lambda>i. i \<in> G \<and> i \<noteq> 0) (spaceBookmarks sp)"
      using Tdis by (intro filter_cong) (auto simp: cur' desiredBookmarks_props)
    then show ?thesis
      by (simp add: desiredBookmarks_def uniqPreserveOrder_drop_zero)
  qed
  show ?thesis
  proof (cases "opt_source os2")
    case Arcify
    have "filter (\<lambda>i. i \<in> ?G' \<and> i \<notin> set ?B) (temporaryTabs sp) =
          filter (\<lambda>i. (i \<in> G \<and> i \<notin> set ?B) \<and> i \<noteq> 0) (temporaryTabs sp)"
      by (intro filter_cong) (auto simp: cur' desiredBookmarks_props desiredTemps_props)
    then have "desiredTemps ?G' sp = ?T"
      by (simp only: desiredTemps_def B' uniqPreserveOrder_drop_zero)
    with Arcify B' show ?thesis
      by (simp add: spaceAfterSource_def desiredGroupOrder_eq cur')
  next
    case Chrome
    let ?sp2 = "adoptChromeOrder cur' (opt_movedTabId os2) sp"
    have t2: "temporaryTabs ?sp2 = ?T"
    proof -
      have "filter (\<lambda>i. i \<notin> set (spaceBookmarks sp)) ?B = []"
        using Bsub by (auto simp: filter_empty_conv)
      moreover have "filter (\<lambda>i. i \<notin> set (spaceBookmarks sp)) ?T = ?T"
        using Tdis by (auto simp: filter_id_conv)
      ultimately have "filter (\<lambda>i. i \<notin> set (spaceBookmarks sp)) cur' = ?T"
        unfolding cur' by simp
      then show ?thesis
        using dT nzT by (simp add: adoptChromeOrder_temporaryTabs uniqPreserveOrder_id)
    qed
    have b2: "spaceBookmarks ?sp2 = spaceBookmarks sp"
    proof (cases "opt_movedTabId os2")
      case None
      then show ?thesis by (simp add: adoptChromeOrder_spaceBookmarks)
    next
      case (Some m)
      have "set (takeWhile (\<lambda>i. i \<noteq> m) cur') \<subseteq> set (spaceBookmarks sp)"
        if "m \<in> set (spaceBookmarks sp)" "m \<in> set cur'"
      proof -
        have "m \<in> set ?B" using that Tdis by (auto simp: cur')
        from takeWhile_in_prefix [OF this, of ?T] Bsub show ?thesis
          by (auto simp: cur')
      qed
      with Some show ?thesis by (auto simp: adoptChromeOrder_spaceBookmarks)
    qed
    have B2: "desiredBookmarks ?G' ?sp2 = ?B"
      using desiredBookmarks_cong [OF b2] B' by simp
    have "filter (\<lambda>i. i \<in> ?G' \<and> i \<notin> set ?B) ?T = ?T"
      using BT by (auto simp: filter_id_conv cur')
    then have T2: "desiredTemps ?G' ?sp2 = ?T"
      using dT nzT by (simp add: desiredTemps_def B2 t2 uniqPreserveOrder_id)
    from Chrome B2 T2 show ?thesis
      by (simp add: spaceAfterSource_def desiredGroupOrder_eq cur')
  qed
qed

section \<open>Reconciliation: the claims\<close>

lemma reconcile_returns_early:
  assumes "List.find (\<lambda>s. space_id s = spaceId) (spaces st) = None \<or> spaceId = 0 \<or>
           currentGroupOrder spaceId (host_tabs st) = []"
  shows "reconcileSpaceTabOrdering ito oc spaceId os st = (Returned, st)"
  using assms
  by (auto simp: reconcileSpaceTabOrdering_def Let_def unpinned_Nil_iff split: option.splits)

lemma no_unpinned_tab:
  assumes "\<forall>t\<in>set (host_tabs st). tab_groupId t = spaceId \<longrightarrow> tab_pinned t"
  shows "currentGroupOrder spaceId (host_tabs st) = []"
proof -
  have "filter (inGroup spaceId) (host_tabs st) = []"
    using assms by (auto simp: filter_empty_conv inGroup_def)
  then show ?thesis
    by (simp add: currentGroupOrder_eq)
qed

text \<open>
  Claim C10. Called with a space id that is not in the \<open>spaces\<close> array (or is the falsy
  id \<open>0\<close>), or for a space whose tab group holds no unpinned tab, the call returns at once
  and the whole state is as before: the space records, the values written to storage, the
  rendered temporary rows and the list of issued move calls.
\<close>

theorem reconcile_early_return_no_effect:
  assumes "List.find (\<lambda>s. space_id s = spaceId) (spaces st) = None \<or> spaceId = 0 \<or>
           (\<forall>t\<in>set (host_tabs st). tab_groupId t = spaceId \<longrightarrow> tab_pinned t)"
  shows "reconcileSpaceTabOrdering ito oc spaceId os st = (Returned, st)"
  using assms no_unpinned_tab [of st spaceId]
  by (intro reconcile_returns_early) blast

theorem reconcile_early_return_no_effect_witness:
  "List.find (\<lambda>s. space_id s = 11) (spaces onlyPinned) = None \<and>
   list_all (\<lambda>t. tab_groupId t = 10 \<longrightarrow> tab_pinned t) (host_tabs onlyPinned) \<and>
   reconcileSpaceTabOrdering False Accepted 11 (fromArcify None) onlyPinned = (Returned, onlyPinned) \<and>
   reconcileSpaceTabOrdering False Accepted 10 (fromChrome (Some 1)) onlyPinned = (Returned, onlyPinned)"
proof -
  have a: "List.find (\<lambda>s. space_id s = 11) (spaces onlyPinned) = None"
    by (simp add: onlyPinned_def sidebarState_def workSpace_def)
  have b: "\<forall>t\<in>set (host_tabs onlyPinned). tab_groupId t = 10 \<longrightarrow> tab_pinned t"
    by (simp add: onlyPinned_def sidebarState_def groupTab_def)
  show ?thesis
    using a b
      reconcile_early_return_no_effect [of 11 onlyPinned False Accepted "fromArcify None"]
      reconcile_early_return_no_effect [of 10 onlyPinned False Accepted "fromChrome (Some 1)"]
    by (simp add: list_all_iff)
qed

text \<open>
  Where temporary tab 3 was dragged in front of bookmark tabs 1 and 2, the code and the
  words of the specification leave the same bookmark block.
\<close>

lemma reconcile_chrome_agrees_temp_dragged_first:
  "currentGroupOrder 10 (host_tabs tempDraggedFirst) = [3, 1, 2] \<and>
   map spaceBookmarks
     (spaces (snd (reconcileSpaceTabOrdering False Accepted 10 (fromChrome (Some 3))
        tempDraggedFirst))) = [specBookmarksAfterHostReorder [3, 1, 2] [1, 2]]"
  by code_simp




lemma reconcile_space_after:
  assumes found: "List.find (\<lambda>s. space_id s = spaceId) (spaces st) = Some space0"
    and nz: "spaceId \<noteq> 0"
    and ne: "currentGroupOrder spaceId (host_tabs st) \<noteq> []"
  shows "List.find (\<lambda>s. space_id s = spaceId)
           (spaces (snd (reconcileSpaceTabOrdering ito oc spaceId os st))) =
         Some (spaceAfterSource os (currentGroupOrder spaceId (host_tabs st)) space0)"
proof -
  let ?sp = "spaceAfterSource os (currentGroupOrder spaceId (host_tabs st)) space0"
  have "space_id ?sp = spaceId"
    using find_space_id [OF found] by simp
  then show ?thesis
    using find_updateSpace [OF found, of "\<lambda>_. ?sp"]
      reconcile_fields(1) [OF found nz ne, of ito oc os]
    by simp
qed

lemma tracked_covers_group:
  assumes "\<forall>i\<in>set cur. i \<noteq> 0 \<and> i \<in> set (spaceBookmarks sp) \<union> set (temporaryTabs sp)"
  shows "filter (\<lambda>i. i \<notin> set (desiredGroupOrder (set cur) sp)) cur = []"
  using assms by (auto simp: filter_empty_conv desiredGroupOrder_set)

lemma spaceAfterSource_Chrome_tracks:
  assumes "opt_source os = Chrome" "i \<in> set cur" "i \<noteq> 0"
  shows "i \<in> set (spaceBookmarks (spaceAfterSource os cur sp)) \<union>
             set (temporaryTabs (spaceAfterSource os cur sp))"
  using assms
  by (auto simp: spaceAfterSource_def adoptChromeOrder_temporaryTabs
      set_spaceBookmarks_adoptChromeOrder set_uniqPreserveOrder)

text \<open>
  Claim C1, as amended. For a space whose tab group holds an unpinned tab, in a tab strip
  whose tab ids are pairwise different, a call whose move the host accepts returns, and
  leaves the group's unpinned tabs in this host order: first the ids of \<open>spaceBookmarks\<close>
  present in the group, then the ids of \<open>temporaryTabs\<close> present in the group that are not
  among those bookmark ids (both deduplicated keeping first occurrences, the falsy id
  \<open>0\<close> dropped), then the group's remaining unpinned tabs, which neither array tracks, in
  their previous relative order. The set of unpinned tabs of the group is unchanged. When
  every unpinned tab of the group has a nonzero id tracked by one of the two arrays and the
  arrays are disjoint, the order is exactly the concatenation the claim names. The arrays
  are those of the space after the call.
\<close>

theorem reconcile_host_order_after_success:
  fixes st :: app_state and os :: opts and spaceId :: int and space0 :: space and ito :: bool
  defines "cur \<equiv> currentGroupOrder spaceId (host_tabs st)"
  defines "st' \<equiv> snd (reconcileSpaceTabOrdering ito Accepted spaceId os st)"
  assumes found: "List.find (\<lambda>s. space_id s = spaceId) (spaces st) = Some space0"
    and nz: "spaceId \<noteq> 0"
    and ne: "currentGroupOrder spaceId (host_tabs st) \<noteq> []"
    and dist: "distinct (map tab_id (host_tabs st))"
  shows "\<exists>sp'. List.find (\<lambda>s. space_id s = spaceId) (spaces st') = Some sp' \<and>
           fst (reconcileSpaceTabOrdering ito Accepted spaceId os st) = Returned \<and>
           currentGroupOrder spaceId (host_tabs st') =
             desiredBookmarks (set cur) sp' @ desiredTemps (set cur) sp' @
             filter (\<lambda>i. i \<notin> set (desiredBookmarks (set cur) sp') \<union>
                             set (desiredTemps (set cur) sp')) cur \<and>
           set (currentGroupOrder spaceId (host_tabs st')) = set cur \<and>
           ((\<forall>i\<in>set cur. i \<noteq> 0 \<and> i \<in> set (spaceBookmarks sp') \<union> set (temporaryTabs sp')) \<and>
            set (spaceBookmarks sp') \<inter> set (temporaryTabs sp') = {} \<longrightarrow>
            currentGroupOrder spaceId (host_tabs st') =
              uniqPreserveOrder (filter (\<lambda>i. i \<in> set cur) (spaceBookmarks sp')) @
              uniqPreserveOrder (filter (\<lambda>i. i \<in> set cur) (temporaryTabs sp')))"
proof -
  let ?sp = "spaceAfterSource os cur space0"
  let ?B = "desiredBookmarks (set cur) ?sp" and ?T = "desiredTemps (set cur) ?sp"
  have f: "List.find (\<lambda>s. space_id s = spaceId) (spaces st') = Some ?sp"
    unfolding st'_def cur_def by (rule reconcile_space_after [OF found nz ne])
  have r: "fst (reconcileSpaceTabOrdering ito Accepted spaceId os st) = Returned"
    using reconcile_fields(4) [OF found nz ne, of ito Accepted os] by simp
  have o: "currentGroupOrder spaceId (host_tabs st') =
           desiredGroupOrder (set cur) ?sp @
           filter (\<lambda>i. i \<notin> set (desiredGroupOrder (set cur) ?sp)) cur"
    unfolding st'_def cur_def by (rule reconcile_group_order [OF found nz ne dist])
  then have o': "currentGroupOrder spaceId (host_tabs st') =
           ?B @ ?T @ filter (\<lambda>i. i \<notin> set ?B \<union> set ?T) cur"
    by (simp add: desiredGroupOrder_eq)
  have s: "set (currentGroupOrder spaceId (host_tabs st')) = set cur"
    unfolding o using desiredGroupOrder_props(2) [of "set cur" ?sp] by auto
  have e: "currentGroupOrder spaceId (host_tabs st') =
              uniqPreserveOrder (filter (\<lambda>i. i \<in> set cur) (spaceBookmarks ?sp)) @
              uniqPreserveOrder (filter (\<lambda>i. i \<in> set cur) (temporaryTabs ?sp))"
    if tr: "\<forall>i\<in>set cur. i \<noteq> 0 \<and> i \<in> set (spaceBookmarks ?sp) \<union> set (temporaryTabs ?sp)"
      and dj: "set (spaceBookmarks ?sp) \<inter> set (temporaryTabs ?sp) = {}"
  proof -
    have "filter (\<lambda>i. i \<in> set cur \<and> i \<notin> set ?B) (temporaryTabs ?sp) =
          filter (\<lambda>i. i \<in> set cur) (temporaryTabs ?sp)"
      using dj by (intro filter_cong) (auto simp: desiredBookmarks_props)
    then have "?T = uniqPreserveOrder (filter (\<lambda>i. i \<in> set cur) (temporaryTabs ?sp))"
      by (simp add: desiredTemps_def)
    then show ?thesis
      using o tracked_covers_group [OF tr]
      by (simp add: desiredGroupOrder_eq desiredBookmarks_def)
  qed
  show ?thesis
    by (rule exI [of _ ?sp]) (use f r o' s e in blast)
qed

text \<open>
  The claim as stated gives the host's order of the whole group. Here tab 3 is in the group
  and in neither array: the call returns, the arrays are \<open>[1]\<close> and \<open>[2]\<close>, and the
  host's order of the group is \<open>[1, 2, 3]\<close>, not \<open>[1] @ [2]\<close>.
\<close>

theorem reconcile_untracked_tab_order_counterexample:
  "fst (reconcileSpaceTabOrdering False Accepted 10 (fromArcify (Some 1)) untrackedTab) = Returned \<and>
   map spaceBookmarks
     (spaces (snd (reconcileSpaceTabOrdering False Accepted 10 (fromArcify (Some 1)) untrackedTab)))
     = [[1]] \<and>
   map temporaryTabs
     (spaces (snd (reconcileSpaceTabOrdering False Accepted 10 (fromArcify (Some 1)) untrackedTab)))
     = [[2]] \<and>
   currentGroupOrder 10
     (host_tabs (snd (reconcileSpaceTabOrdering False Accepted 10 (fromArcify (Some 1)) untrackedTab)))
     = [1, 2, 3] \<and>
   currentGroupOrder 10
     (host_tabs (snd (reconcileSpaceTabOrdering False Accepted 10 (fromArcify (Some 1)) untrackedTab)))
     \<noteq> [1] @ [2]"
  by code_simp

theorem reconcile_host_order_after_success_witness:
  "List.find (\<lambda>s. space_id s = 10) (spaces bookmarkDraggedLast) = Some (workSpace [1, 2] [3]) \<and>
   distinct (map tab_id (host_tabs bookmarkDraggedLast)) \<and>
   currentGroupOrder 10 (host_tabs bookmarkDraggedLast) = [2, 3, 1] \<and>
   List.find (\<lambda>s. space_id s = 10)
     (spaces (snd (reconcileSpaceTabOrdering False Accepted 10 (fromChrome (Some 1))
        bookmarkDraggedLast))) = Some (workSpace [2, 1] [3]) \<and>
   currentGroupOrder 10
     (host_tabs (snd (reconcileSpaceTabOrdering False Accepted 10 (fromChrome (Some 1))
        bookmarkDraggedLast))) = [2, 1, 3]"
proof -
  let ?st' = "snd (reconcileSpaceTabOrdering False Accepted 10 (fromChrome (Some 1))
        bookmarkDraggedLast)"
  have f: "List.find (\<lambda>s. space_id s = 10) (spaces bookmarkDraggedLast) = Some (workSpace [1, 2] [3])"
    by (simp add: bookmarkDraggedLast_def sidebarState_def workSpace_def)
  have d: "distinct (map tab_id (host_tabs bookmarkDraggedLast))"
    by (simp add: bookmarkDraggedLast_def sidebarState_def groupTab_def)
  have c: "currentGroupOrder 10 (host_tabs bookmarkDraggedLast) = [2, 3, 1]"
    by code_simp
  have n: "currentGroupOrder 10 (host_tabs bookmarkDraggedLast) \<noteq> []"
    by (simp add: c)
  have f': "List.find (\<lambda>s. space_id s = 10) (spaces ?st') = Some (workSpace [2, 1] [3])"
    by code_simp
  have u: "uniqPreserveOrder [2, 1] = [2, 1]" "uniqPreserveOrder [3] = [3]"
    by (simp_all add: uniqPreserveOrder_def)
  from reconcile_host_order_after_success [OF f _ n d, of False "fromChrome (Some 1)"]
  obtain sp' where a: "List.find (\<lambda>s. space_id s = 10) (spaces ?st') = Some sp'"
    and imp: "(\<forall>i\<in>set [2, 3, 1]. i \<noteq> 0 \<and> i \<in> set (spaceBookmarks sp') \<union> set (temporaryTabs sp')) \<and>
            set (spaceBookmarks sp') \<inter> set (temporaryTabs sp') = {} \<longrightarrow>
            currentGroupOrder 10 (host_tabs ?st') =
              uniqPreserveOrder (filter (\<lambda>i. i \<in> set [2, 3, 1]) (spaceBookmarks sp')) @
              uniqPreserveOrder (filter (\<lambda>i. i \<in> set [2, 3, 1]) (temporaryTabs sp'))"
    unfolding c by auto
  have sp': "sp' = workSpace [2, 1] [3]" using a f' by simp
  have "currentGroupOrder 10 (host_tabs ?st') = [2, 1, 3]"
    using imp unfolding sp' by (simp add: workSpace_def u)
  then show ?thesis
    using f d c f' by simp
qed

subsection \<open>Calling twice\<close>

text \<open>
  Claim C2, as amended. In a tab strip whose tab ids are pairwise different, for a group
  whose unpinned tabs all have nonzero ids, each of them tracked by \<open>spaceBookmarks\<close> or
  \<open>temporaryTabs\<close> when the first call runs with \<open>source = 'arcify'\<close> (with
  \<open>source = 'chrome'\<close> the call itself tracks them): after a first call whose move the
  host accepted, a second call, whatever its options and whatever the host would answer,
  issues no move and leaves the tab strip as it is.
\<close>

theorem reconcile_twice_no_second_move:
  fixes st :: app_state and os os_b :: opts and spaceId :: int and ito ito_b :: bool
  defines "cur \<equiv> currentGroupOrder spaceId (host_tabs st)"
  defines "st' \<equiv> snd (reconcileSpaceTabOrdering ito Accepted spaceId os st)"
  assumes dist: "distinct (map tab_id (host_tabs st))"
    and nonzero: "0 \<notin> set cur"
    and tracked: "\<And>space0. List.find (\<lambda>s. space_id s = spaceId) (spaces st) = Some space0 \<Longrightarrow>
        opt_source os = Arcify \<Longrightarrow>
        set cur \<subseteq> set (spaceBookmarks space0) \<union> set (temporaryTabs space0)"
  shows "move_calls (snd (reconcileSpaceTabOrdering ito_b oc_b spaceId os_b st')) = move_calls st' \<and>
         host_tabs (snd (reconcileSpaceTabOrdering ito_b oc_b spaceId os_b st')) = host_tabs st'"
proof (cases "List.find (\<lambda>s. space_id s = spaceId) (spaces st) = None \<or> spaceId = 0 \<or> cur = []")
  case True
  then have "reconcileSpaceTabOrdering ito Accepted spaceId os st = (Returned, st)"
    unfolding cur_def by (rule reconcile_returns_early)
  then have "st' = st" by (simp add: st'_def)
  moreover have "reconcileSpaceTabOrdering ito_b oc_b spaceId os_b st = (Returned, st)"
    using True unfolding cur_def by (rule reconcile_returns_early)
  ultimately show ?thesis by simp
next
  case False
  then obtain space0 where found: "List.find (\<lambda>s. space_id s = spaceId) (spaces st) = Some space0"
    and nz: "spaceId \<noteq> 0" and ne: "currentGroupOrder spaceId (host_tabs st) \<noteq> []"
    by (auto simp: cur_def)
  let ?sp = "spaceAfterSource os cur space0"
  let ?d = "desiredGroupOrder (set cur) ?sp"
  have tr: "\<forall>i\<in>set cur. i \<noteq> 0 \<and> i \<in> set (spaceBookmarks ?sp) \<union> set (temporaryTabs ?sp)"
  proof
    fix i assume i: "i \<in> set cur"
    then have i0: "i \<noteq> 0" using nonzero by auto
    show "i \<noteq> 0 \<and> i \<in> set (spaceBookmarks ?sp) \<union> set (temporaryTabs ?sp)"
    proof (cases "opt_source os")
      case Arcify
      with tracked [OF found] i i0 show ?thesis by (auto simp: spaceAfterSource_def)
    next
      case Chrome
      from spaceAfterSource_Chrome_tracks [OF Chrome i i0] i0 show ?thesis by simp
    qed
  qed
  have f': "List.find (\<lambda>s. space_id s = spaceId) (spaces st') = Some ?sp"
    unfolding st'_def cur_def by (rule reconcile_space_after [OF found nz ne])
  have cur': "currentGroupOrder spaceId (host_tabs st') = ?d"
    using reconcile_group_order [OF found nz ne dist, of ito os] tracked_covers_group [OF tr]
    by (simp add: st'_def cur_def)
  show ?thesis
  proof (cases "?d = []")
    case True
    then have "reconcileSpaceTabOrdering ito_b oc_b spaceId os_b st' = (Returned, st')"
      using cur' by (intro reconcile_returns_early) simp
    then show ?thesis by simp
  next
    case d: False
    then have ne': "currentGroupOrder spaceId (host_tabs st') \<noteq> []"
      using cur' by simp
    have same: "isSameOrder ?d (desiredGroupOrder (set ?d) (spaceAfterSource os_b ?d ?sp))"
      using desired_fixpoint [of ?d "set cur" ?sp os_b] by (simp add: isSameOrder_iff)
    show ?thesis
      using reconcile_fields(2,3) [OF f' nz ne', of ito_b oc_b os_b] same
      by (simp add: cur')
  qed
qed

text \<open>
  The claim as stated holds for every space. Here tab 3 of the group is in neither array:
  the first call moves \<open>[1, 2]\<close> to the front of the group, and the second call, with
  nothing changed in between, finds three tabs against a desired order of two and issues
  the same move again.
\<close>

theorem reconcile_twice_second_move_counterexample:
  "move_calls (snd (reconcileSpaceTabOrdering False Accepted 10 (fromArcify (Some 1)) untrackedTab))
     = [([1, 2], 0)] \<and>
   move_calls
     (snd (reconcileSpaceTabOrdering False Accepted 10 (fromArcify (Some 1))
        (snd (reconcileSpaceTabOrdering False Accepted 10 (fromArcify (Some 1)) untrackedTab))))
     = [([1, 2], 0), ([1, 2], 0)]"
  by code_simp

theorem reconcile_twice_no_second_move_witness:
  "distinct (map tab_id (host_tabs bookmarkDraggedLast)) \<and>
   List.find (\<lambda>s. space_id s = 10) (spaces bookmarkDraggedLast) = Some (workSpace [1, 2] [3]) \<and>
   currentGroupOrder 10 (host_tabs bookmarkDraggedLast) = [2, 3, 1] \<and>
   opt_source (fromArcify (Some 1)) = Arcify \<and>
   move_calls (snd (reconcileSpaceTabOrdering False Accepted 10 (fromArcify (Some 1))
     bookmarkDraggedLast)) = [([1, 2, 3], 0)] \<and>
   move_calls
     (snd (reconcileSpaceTabOrdering False Accepted 10 (fromArcify (Some 1))
        (snd (reconcileSpaceTabOrdering False Accepted 10 (fromArcify (Some 1))
           bookmarkDraggedLast)))) = [([1, 2, 3], 0)]"
proof -
  have d: "distinct (map tab_id (host_tabs bookmarkDraggedLast))"
    by (simp add: bookmarkDraggedLast_def sidebarState_def groupTab_def)
  have f: "List.find (\<lambda>s. space_id s = 10) (spaces bookmarkDraggedLast) = Some (workSpace [1, 2] [3])"
    by (simp add: bookmarkDraggedLast_def sidebarState_def workSpace_def)
  have c: "currentGroupOrder 10 (host_tabs bookmarkDraggedLast) = [2, 3, 1]"
    by code_simp
  have z: "0 \<notin> set (currentGroupOrder 10 (host_tabs bookmarkDraggedLast))"
    by (simp add: c)
  have s: "opt_source (fromArcify (Some 1)) = Arcify"
    by (simp add: fromArcify_def)
  have t: "set (currentGroupOrder 10 (host_tabs bookmarkDraggedLast))
             \<subseteq> set (spaceBookmarks space0) \<union> set (temporaryTabs space0)"
    if "List.find (\<lambda>s. space_id s = 10) (spaces bookmarkDraggedLast) = Some space0" for space0
    using that by (auto simp: f c workSpace_def)
  have m: "move_calls (snd (reconcileSpaceTabOrdering False Accepted 10 (fromArcify (Some 1))
     bookmarkDraggedLast)) = [([1, 2, 3], 0)]"
    by code_simp
  from reconcile_twice_no_second_move [where ito = False and os = "fromArcify (Some 1)"
      and ito_b = False and oc_b = Accepted and os_b = "fromArcify (Some 1)", OF d z t]
  have "move_calls
     (snd (reconcileSpaceTabOrdering False Accepted 10 (fromArcify (Some 1))
        (snd (reconcileSpaceTabOrdering False Accepted 10 (fromArcify (Some 1))
           bookmarkDraggedLast)))) =
     move_calls (snd (reconcileSpaceTabOrdering False Accepted 10 (fromArcify (Some 1))
        bookmarkDraggedLast))"
    by simp
  then show ?thesis
    using d f c s m by simp
qed

section \<open>Retry scheduling\<close>

lemma same_key_at_most_one:
  assumes "distinct (map f xs)" "\<forall>x\<in>set xs. f x = c"
  shows "length xs \<le> 1"
proof (cases xs)
  case Nil
  then show ?thesis by simp
next
  case (Cons x ys)
  with assms have "ys = []" by (cases ys) auto
  with Cons show ?thesis by simp
qed

lemma pending_at_most_one:
  assumes "retryInv st"
  shows "length (pendingRetries spaceId st) \<le> 1"
proof (cases "reconcileRetryBySpace st spaceId")
  case None
  have "pendingRetries spaceId st = []"
    using assms None
    by (auto simp: retryInv_def list_all_iff registered_def pendingRetries_def filter_empty_conv)
  then show ?thesis by simp
next
  case (Some e)
  have "distinct (map tm_id (pendingRetries spaceId st))"
    using assms by (simp add: retryInv_def pendingRetries_def distinct_map_filter)
  moreover have "\<forall>t\<in>set (pendingRetries spaceId st). tm_id t = re_timeoutId e"
    using assms Some by (auto simp: retryInv_def list_all_iff registered_def pendingRetries_def)
  ultimately show ?thesis by (rule same_key_at_most_one)
qed

lemma retryInv_start:
  "timers st = [] \<Longrightarrow> 0 < next_timer st \<Longrightarrow> retryInv st"
  by (simp add: retryInv_def)

lemma retryInv_frame:
  assumes "retryInv st" "timers st' = timers st" "next_timer st' = next_timer st"
    "reconcileRetryBySpace st' = reconcileRetryBySpace st"
  shows "retryInv st'"
  using assms by (simp add: retryInv_def registered_def list_all_iff)

lemma registered_updates [simp]:
  "registered (st\<lparr>logs := l\<rparr>) = registered st"
  "registered (st\<lparr>spaces := sps\<rparr>) = registered st"
  "registered (st\<lparr>host_tabs := ts\<rparr>) = registered st"
  "registered (st\<lparr>move_calls := mc\<rparr>) = registered st"
  "registered (st\<lparr>storage_writes := sw\<rparr>) = registered st"
  "registered (st\<lparr>dom_temp := dt\<rparr>) = registered st"
  "registered (st\<lparr>syncingToChrome := sy\<rparr>) = registered st"
  "registered (st\<lparr>syncing_expiries := se\<rparr>) = registered st"
  by (simp_all add: fun_eq_iff registered_def)

lemma retryInv_updates [simp]:
  "retryInv (st\<lparr>logs := l\<rparr>) = retryInv st"
  "retryInv (st\<lparr>spaces := sps\<rparr>) = retryInv st"
  "retryInv (st\<lparr>host_tabs := ts\<rparr>) = retryInv st"
  "retryInv (st\<lparr>move_calls := mc\<rparr>) = retryInv st"
  "retryInv (st\<lparr>storage_writes := sw\<rparr>) = retryInv st"
  "retryInv (st\<lparr>dom_temp := dt\<rparr>) = retryInv st"
  "retryInv (st\<lparr>syncingToChrome := sy\<rparr>) = retryInv st"
  "retryInv (st\<lparr>syncing_expiries := se\<rparr>) = retryInv st"
  by (simp_all add: retryInv_def)

lemma retryInv_helpers [simp]:
  "retryInv (saveSpaces st) = retryInv st"
  "retryInv (updateTempDom ito sid temps st) = retryInv st"
  "retryInv (markTabsSyncingToChrome ids st) = retryInv st"
  "retryInv (unmarkTabsSyncingToChrome ids st) = retryInv st"
  by (simp_all add: saveSpaces_def updateTempDom_def markTabsSyncingToChrome_def
      unmarkTabsSyncingToChrome_def Let_def split: option.splits)

lemma cleared_subset: "set (cleared spaceId st) \<subseteq> set (timers st)"
  by (auto simp: cleared_def split: option.splits)

lemma cleared_distinct: "distinct (map tm_id (timers st)) \<Longrightarrow> distinct (map tm_id (cleared spaceId st))"
  by (auto simp: cleared_def distinct_map_filter split: option.splits)

lemma cleared_other_space:
  assumes "retryInv st" "t \<in> set (cleared spaceId st)"
  shows "tm_spaceId t \<noteq> spaceId"
proof
  assume s: "tm_spaceId t = spaceId"
  have "t \<in> set (timers st)" using assms(2) cleared_subset by blast
  then have r: "registered st t" using assms(1) by (simp add: retryInv_def list_all_iff)
  then obtain e where e: "reconcileRetryBySpace st spaceId = Some e" "re_timeoutId e = tm_id t"
    using s by (auto simp: registered_def)
  moreover have "tm_id t \<noteq> 0" using r by (simp add: registered_def)
  ultimately have "t \<notin> set (cleared spaceId st)"
    by (simp add: cleared_def)
  with assms(2) show False by simp
qed

lemma scheduleReconcileRetry_timers:
  "timers (scheduleReconcileRetry spaceId os a d r st) =
     cleared spaceId st @ [\<lparr>tm_id = next_timer st, tm_spaceId = spaceId,
             tm_opts = os\<lparr>opt_retryAttempt := a\<rparr>, tm_delayMs = d\<rparr>]"
  "next_timer (scheduleReconcileRetry spaceId os a d r st) = Suc (next_timer st)"
  "reconcileRetryBySpace (scheduleReconcileRetry spaceId os a d r st) =
     (reconcileRetryBySpace st)(spaceId \<mapsto>
        \<lparr>re_timeoutId = next_timer st, re_attempt = a, re_opts = os\<rparr>)"
  by (simp_all add: scheduleReconcileRetry_def cleared_def Let_def)

lemma scheduleReconcileRetry_pending:
  assumes inv: "retryInv st"
  shows "pendingRetries spaceId (scheduleReconcileRetry spaceId os a d r st) =
           [\<lparr>tm_id = next_timer st, tm_spaceId = spaceId,
             tm_opts = os\<lparr>opt_retryAttempt := a\<rparr>, tm_delayMs = d\<rparr>]"
proof -
  have "filter (\<lambda>t. tm_spaceId t = spaceId) (cleared spaceId st) = []"
    using cleared_other_space [OF inv] by (auto simp: filter_empty_conv)
  then show ?thesis
    by (simp add: pendingRetries_def scheduleReconcileRetry_timers)
qed

lemma retryInv_schedule:
  assumes inv: "retryInv st"
  shows "retryInv (scheduleReconcileRetry spaceId os a d r st)"
proof -
  let ?st' = "scheduleReconcileRetry spaceId os a d r st"
  have pos: "0 < next_timer st" using inv by (simp add: retryInv_def)
  have old: "registered ?st' t" if t: "t \<in> set (cleared spaceId st)" for t
  proof -
    have "t \<in> set (timers st)" using t cleared_subset by blast
    then have "registered st t" using inv by (simp add: retryInv_def list_all_iff)
    moreover have "tm_spaceId t \<noteq> spaceId" using cleared_other_space [OF inv t] .
    ultimately show ?thesis
      by (simp add: registered_def scheduleReconcileRetry_timers)
  qed
  have fresh: "tm_id t \<noteq> next_timer st" if t: "t \<in> set (cleared spaceId st)" for t
  proof -
    have "t \<in> set (timers st)" using t cleared_subset by blast
    then have "registered st t" using inv by (simp add: retryInv_def list_all_iff)
    then show ?thesis by (simp add: registered_def)
  qed
  have d: "distinct (map tm_id (cleared spaceId st))"
    using inv by (simp add: retryInv_def cleared_distinct)
  have nf: "next_timer st \<notin> set (map tm_id (cleared spaceId st))"
  proof
    assume "next_timer st \<in> set (map tm_id (cleared spaceId st))"
    then obtain t where "t \<in> set (cleared spaceId st)" "tm_id t = next_timer st"
      by auto
    with fresh show False by blast
  qed
  have "distinct (map tm_id (timers ?st'))"
    using d nf by (simp add: scheduleReconcileRetry_timers)
  moreover have "list_all (registered ?st') (timers ?st')"
    using old pos
    by (simp add: scheduleReconcileRetry_timers(1) list_all_iff)
       (simp add: registered_def scheduleReconcileRetry_timers)
  ultimately show ?thesis
    using pos by (simp add: retryInv_def scheduleReconcileRetry_timers(2))
qed

lemma retryInv_onMoveError:
  "retryInv st \<Longrightarrow> retryInv (snd (onMoveError spaceId os ds msg st))"
  by (simp add: onMoveError_def Let_def retryInv_schedule)

lemma retryInv_reconcile:
  assumes "retryInv st"
  shows "retryInv (snd (reconcileSpaceTabOrdering ito oc spaceId os st))"
proof (cases "List.find (\<lambda>s. space_id s = spaceId) (spaces st) = None \<or> spaceId = 0 \<or>
    currentGroupOrder spaceId (host_tabs st) = []")
  case True
  then show ?thesis using assms by (simp add: reconcile_returns_early)
next
  case False
  then have u: "groupTabsUnpinned spaceId (host_tabs st) \<noteq> []"
    by (simp add: unpinned_Nil_iff)
  show ?thesis
  proof (cases oc)
    case Accepted
    with False u assms show ?thesis
      by (auto simp: reconcileSpaceTabOrdering_def Let_def split_beta split: option.splits)
  next
    case (Rejected msg)
    with False u assms show ?thesis
      by (auto simp: reconcileSpaceTabOrdering_def Let_def split_beta retryInv_onMoveError
          split: option.splits)
  qed
qed

lemma timers_reconcile_Accepted:
  "timers (snd (reconcileSpaceTabOrdering ito Accepted spaceId os st)) = timers st \<and>
   reconcileRetryBySpace (snd (reconcileSpaceTabOrdering ito Accepted spaceId os st)) =
     reconcileRetryBySpace st"
proof (cases "List.find (\<lambda>s. space_id s = spaceId) (spaces st) = None \<or> spaceId = 0 \<or>
    currentGroupOrder spaceId (host_tabs st) = []")
  case True
  then show ?thesis by (simp add: reconcile_returns_early)
next
  case False
  then have u: "groupTabsUnpinned spaceId (host_tabs st) \<noteq> []"
    by (simp add: unpinned_Nil_iff)
  with False show ?thesis
    by (auto simp: reconcileSpaceTabOrdering_def Let_def split_beta split: option.splits)
qed

lemma retryInv_expire_step:
  assumes inv: "retryInv st" and t: "List.find (\<lambda>t. tm_id t = tid) (timers st) = Some t"
  shows "retryInv (st\<lparr>timers := filter (\<lambda>u. tm_id u \<noteq> tid) (timers st),
                     reconcileRetryBySpace := (reconcileRetryBySpace st)(tm_spaceId t := None)\<rparr>)"
proof -
  have tin: "t \<in> set (timers st)" "tm_id t = tid"
    using t by (auto simp: find_Some_iff)
  have reg: "\<forall>u\<in>set (timers st). registered st u"
    using inv by (simp add: retryInv_def list_all_iff)
  have other: "tm_spaceId u \<noteq> tm_spaceId t" if u: "u \<in> set (timers st)" "tm_id u \<noteq> tid" for u
  proof
    assume "tm_spaceId u = tm_spaceId t"
    moreover from reg u(1) have
      "map_option re_timeoutId (reconcileRetryBySpace st (tm_spaceId u)) = Some (tm_id u)"
      by (simp add: registered_def)
    moreover from reg tin(1) have
      "map_option re_timeoutId (reconcileRetryBySpace st (tm_spaceId t)) = Some (tm_id t)"
      by (simp add: registered_def)
    ultimately have "tm_id u = tm_id t" by simp
    with u(2) tin(2) show False by simp
  qed
  show ?thesis
    using inv reg other
    by (auto simp: retryInv_def list_all_iff registered_def distinct_map_filter)
qed

lemma retryInv_fire:
  assumes "retryInv st"
  shows "retryInv (fireRetryTimer ito oc tid st)"
proof (cases "List.find (\<lambda>t. tm_id t = tid) (timers st)")
  case None
  with assms show ?thesis by (simp add: fireRetryTimer_def)
next
  case (Some t)
  let ?st1 = "st\<lparr>timers := filter (\<lambda>u. tm_id u \<noteq> tid) (timers st),
                     reconcileRetryBySpace := (reconcileRetryBySpace st)(tm_spaceId t := None)\<rparr>"
  have "retryInv (snd (reconcileSpaceTabOrdering ito oc (tm_spaceId t) (tm_opts t) ?st1))"
    by (rule retryInv_reconcile) (rule retryInv_expire_step [OF assms Some])
  then show ?thesis
    using Some by (auto simp: fireRetryTimer_def Let_def split: prod.splits call_result.splits)
qed

lemma reachable_retryInv: "reachable st \<Longrightarrow> retryInv st"
proof (induction rule: reachable.induct)
  case (start st)
  then show ?case by (simp add: retryInv_start)
next
  case (request st ito oc spaceId os)
  then show ?case by (simp add: retryInv_reconcile)
next
  case (expire st ito oc tid)
  then show ?case by (simp add: retryInv_fire)
next
  case (other st sps ts)
  then show ?case by simp
qed

text \<open>
  Claim C6, as amended. In every state the sidebar can reach, a space has at most one retry
  timer pending. Scheduling a retry for a space cancels the retry pending for it and leaves
  exactly the new timer pending for that space. A reconciliation whose move the host
  accepts (or that needs no move) schedules nothing and cancels nothing: the pending timers
  and the retry map are as before.
\<close>

theorem retry_timers_one_per_space:
  "(reachable st \<longrightarrow> length (pendingRetries spaceId st) \<le> 1) \<and>
   (reachable st \<longrightarrow>
      pendingRetries spaceId (scheduleReconcileRetry spaceId os a d r st) =
        [\<lparr>tm_id = next_timer st, tm_spaceId = spaceId,
          tm_opts = os\<lparr>opt_retryAttempt := a\<rparr>, tm_delayMs = d\<rparr>] \<and>
      (\<forall>t\<in>set (pendingRetries spaceId st).
         t \<notin> set (timers (scheduleReconcileRetry spaceId os a d r st)))) \<and>
   timers (snd (reconcileSpaceTabOrdering ito Accepted spaceId os st)) = timers st \<and>
   reconcileRetryBySpace (snd (reconcileSpaceTabOrdering ito Accepted spaceId os st)) =
     reconcileRetryBySpace st"
proof -
  have gone: "t \<notin> set (timers (scheduleReconcileRetry spaceId os a d r st))"
    if inv: "retryInv st" and t: "t \<in> set (pendingRetries spaceId st)" for t
  proof
    assume "t \<in> set (timers (scheduleReconcileRetry spaceId os a d r st))"
    moreover have "tm_spaceId t = spaceId" using t by (simp add: pendingRetries_def)
    ultimately have "t \<in> set (pendingRetries spaceId (scheduleReconcileRetry spaceId os a d r st))"
      by (simp add: pendingRetries_def)
    then have "tm_id t = next_timer st"
      by (simp add: scheduleReconcileRetry_pending [OF inv])
    moreover have "registered st t"
      using inv t by (simp add: retryInv_def list_all_iff pendingRetries_def)
    ultimately show False by (simp add: registered_def)
  qed
  show ?thesis
    using pending_at_most_one [of st spaceId] reachable_retryInv [of st]
      scheduleReconcileRetry_pending [of st spaceId os a d r] gone
      timers_reconcile_Accepted [of ito spaceId os st]
    by blast
qed

text \<open>
  The claim as stated lets every new reconciliation request for a space cancel and replace
  the retry pending for it. Here a retry (timer 1) is pending for space 10; a new request
  for space 10 whose move the host accepts returns and leaves timer 1 pending.
\<close>

theorem reconcile_keeps_pending_retry_counterexample:
  "map tm_id (timers retryPending) = [1] \<and>
   map tm_spaceId (timers retryPending) = [10] \<and>
   fst (reconcileSpaceTabOrdering False Accepted 10 (fromArcify None) retryPending) = Returned \<and>
   map tm_id (timers (snd (reconcileSpaceTabOrdering False Accepted 10 (fromArcify None)
     retryPending))) = [1]"
  by code_simp

theorem retry_timers_one_per_space_witness:
  "reachable retryPending \<and>
   map tm_id (pendingRetries 10 retryPending) = [1] \<and>
   length (pendingRetries 10 retryPending) \<le> 1 \<and>
   map tm_id (pendingRetries 10
     (scheduleReconcileRetry 10 (fromArcify None) 2 400 midDragMessage retryPending)) = [2]"
proof -
  have "reachable bookmarkDraggedLast"
    by (rule reachable.start) (simp_all add: bookmarkDraggedLast_def sidebarState_def)
  then have r: "reachable retryPending"
    unfolding retryPending_def by (rule reachable.request)
  have p: "map tm_id (pendingRetries 10 retryPending) = [1]"
    by code_simp
  have n: "next_timer retryPending = 2"
    by code_simp
  show ?thesis
    using r p n
      retry_timers_one_per_space [of retryPending 10 "fromArcify None" 2 400 midDragMessage False]
    by simp
qed

section \<open>Retry backoff\<close>

text \<open>
  Claim C5. The host rejects the move with its mid-drag message at retry attempts 0, 1, 2
  and 3: the retries are scheduled after 300, 400, 500 and 600 ms. The delay grows by a
  fixed 100 ms per attempt (\<open>200 + nextAttempt * 100\<close>, capped at 1200), not by a factor.
  The rest is as the claim says: at attempt 11 the delay is the cap, at attempt 12 nothing
  is scheduled and a warning is logged, and another error is thrown again.
\<close>

theorem reconcile_retry_delay_steps:
  "map tm_delayMs (timers (snd (reconcileSpaceTabOrdering False (Rejected midDragMessage) 10
      (attempt 0) bookmarkDraggedLast))) = [300] \<and>
   map tm_delayMs (timers (snd (reconcileSpaceTabOrdering False (Rejected midDragMessage) 10
      (attempt 1) bookmarkDraggedLast))) = [400] \<and>
   map tm_delayMs (timers (snd (reconcileSpaceTabOrdering False (Rejected midDragMessage) 10
      (attempt 2) bookmarkDraggedLast))) = [500] \<and>
   map tm_delayMs (timers (snd (reconcileSpaceTabOrdering False (Rejected midDragMessage) 10
      (attempt 3) bookmarkDraggedLast))) = [600] \<and>
   map tm_delayMs (timers (snd (reconcileSpaceTabOrdering False (Rejected midDragMessage) 10
      (attempt 11) bookmarkDraggedLast))) = [1200] \<and>
   timers (snd (reconcileSpaceTabOrdering False (Rejected midDragMessage) 10
      (attempt 12) bookmarkDraggedLast)) = [] \<and>
   logs (snd (reconcileSpaceTabOrdering False (Rejected midDragMessage) 10
      (attempt 12) bookmarkDraggedLast)) =
     [LogWarn ''[ReconcileOrder] Gave up retrying reorder (Chrome remained locked):''] \<and>
   fst (reconcileSpaceTabOrdering False (Rejected ''No tab with id: 2.'') 10
      (attempt 0) bookmarkDraggedLast) = Threw ''No tab with id: 2.''"
  by code_simp

section \<open>Disjointness of the two arrays\<close>

lemma disjointArrays_moveTabToPinned:
  "disjointArrays sp \<Longrightarrow> disjointArrays (moveTabToPinned tabId sp)"
  by (auto simp: disjointArrays_def moveTabToPinned_def Let_def)

lemma disjointArrays_moveTabToTemp:
  "disjointArrays sp \<Longrightarrow> disjointArrays (moveTabToTemp tabId sp)"
  by (auto simp: disjointArrays_def moveTabToTemp_def Let_def)

lemma list_all_updateFirst:
  "list_all Q xs \<Longrightarrow> (\<And>x. Q x \<Longrightarrow> Q (f x)) \<Longrightarrow> list_all Q (updateFirst P f xs)"
  by (induction xs) auto

lemma disjointArrays_moveTabToSpace:
  assumes "list_all disjointArrays sps"
  shows "list_all disjointArrays (moveTabToSpace tabId spaceId pinned sps)"
proof -
  have 1: "disjointArrays (s\<lparr>temporaryTabs := filter (\<lambda>i. i \<noteq> tabId) (temporaryTabs s),
                               spaceBookmarks := filter (\<lambda>i. i \<noteq> tabId) (spaceBookmarks s),
                               lastTab := None\<rparr>)" if "disjointArrays s" for s
    using that by (auto simp: disjointArrays_def)
  have 2: "disjointArrays (let bms = filter (\<lambda>i. i \<noteq> tabId) (spaceBookmarks s);
                        temps = filter (\<lambda>i. i \<noteq> tabId) (temporaryTabs s)
                    in s\<lparr>spaceBookmarks := (if pinned then bms @ [tabId] else bms),
                          temporaryTabs := (if pinned then temps else temps @ [tabId]),
                          lastTab := Some tabId\<rparr>)" if "disjointArrays s" for s
    using that by (auto simp: disjointArrays_def Let_def)
  define sps1 where "sps1 =
            (case List.find (tracksTab tabId) sps of
               None \<Rightarrow> sps
             | Some sourceSpace \<Rightarrow>
                 if space_id sourceSpace \<noteq> spaceId
                 then updateFirst (tracksTab tabId)
                        (\<lambda>s. s\<lparr>temporaryTabs := filter (\<lambda>i. i \<noteq> tabId) (temporaryTabs s),
                               spaceBookmarks := filter (\<lambda>i. i \<noteq> tabId) (spaceBookmarks s),
                               lastTab := None\<rparr>) sps
                 else sps)"
  have l1: "list_all disjointArrays sps1"
    unfolding sps1_def using assms list_all_updateFirst [OF assms 1]
    by (simp split: option.splits)
  have "moveTabToSpace tabId spaceId pinned sps =
        (case List.find (\<lambda>s. space_id s = spaceId) sps1 of
           None \<Rightarrow> sps1
         | Some _ \<Rightarrow>
             updateFirst (\<lambda>s. space_id s = spaceId)
               (\<lambda>s. let bms = filter (\<lambda>i. i \<noteq> tabId) (spaceBookmarks s);
                        temps = filter (\<lambda>i. i \<noteq> tabId) (temporaryTabs s)
                    in s\<lparr>spaceBookmarks := (if pinned then bms @ [tabId] else bms),
                          temporaryTabs := (if pinned then temps else temps @ [tabId]),
                          lastTab := Some tabId\<rparr>) sps1)"
    unfolding moveTabToSpace_def sps1_def by (simp only: Let_def)
  then show ?thesis
    using l1 list_all_updateFirst [OF l1 2]
    by (simp split: option.splits)
qed

lemma disjointArrays_adoptChromeOrder:
  "disjointArrays (adoptChromeOrder cur mv sp)"
  by (auto simp: disjointArrays_def adoptChromeOrder_temporaryTabs
      set_spaceBookmarks_adoptChromeOrder set_uniqPreserveOrder)

text \<open>
  Claim C3. The click on the pinned placeholder row of \<open>https://docs.example/plan\<close>, while
  temporary tab 7 of space 10 shows that URL: the space's arrays were disjoint, and after
  the click tab 7 is in \<open>spaceBookmarks\<close> and still in \<open>temporaryTabs\<close>.
\<close>

theorem bookmark_click_breaks_disjointness:
  "disjointArrays (workSpace [1] [7]) \<and>
   bookmarkRowClick True ''https://docs.example/plan'' [groupTab 1 10, docsTab] [workSpace [1] [7]] =
     Some [\<lparr>space_id = 10, space_name = ''Work'', spaceBookmarks = [1, 7],
            temporaryTabs = [7], lastTab = Some 7\<rparr>] \<and>
   \<not> disjointArrays \<lparr>space_id = 10, space_name = ''Work'', spaceBookmarks = [1, 7],
            temporaryTabs = [7], lastTab = Some 7\<rparr>"
  by code_simp

section \<open>Matching bookmarks to open tabs\<close>

text \<open>The precedence of the three matches, and what each match guarantees of the chosen tab.\<close>

lemma existingTab_precedence:
  "existingTab env rep item =
     (if byBookmarkId env item \<noteq> None then byBookmarkId env item
      else if byExactUrl env item \<noteq> None then byExactUrl env item
      else byBaseUrl env rep item)"
  by (auto simp: existingTab_def split: option.splits)

lemma existingTab_sound:
  assumes "existingTab env rep item = Some t"
  shows "t \<in> set (le_tabs env) \<and>
         (le_pinnedBookmarkId env (tab_id t) = Some (bn_id item) \<or>
          tab_url t = bn_url item \<or>
          (tab_id t \<notin> rep \<and>
           getPinnedUrlKey (le_parse env) (tab_url t) = getPinnedUrlKey (le_parse env) (bn_url item)))"
  using assms
  by (auto simp: existingTab_def byBookmarkId_def byExactUrl_def byBaseUrl_def findTabByUrl_def
      find_Some_iff split: option.splits)

text \<open>
  Claim C9. Tab 5 is the only open tab; its Pinned Tab State names bookmark \<open>''102''\<close>
  and it shows the URL of bookmark \<open>''101''\<close>. Loading the folder matches bookmark
  \<open>''101''\<close> to tab 5 by exact URL and then bookmark \<open>''102''\<close> to tab 5 by the stored
  bookmark id: the one live tab represents both bookmarks.
\<close>

theorem loadTabs_tab_represents_two_bookmarks:
  "fst (processBookmarkNode (oneTabEnv parse) twoBookmarks {}) =
     [TabRow ''101'' 5, TabRow ''102'' 5] \<and>
   representedBy 5 (fst (processBookmarkNode (oneTabEnv parse) twoBookmarks {})) =
     [''101'', ''102'']"
  by (simp add: processBookmarkNode_def itemsToRender_def twoBookmarks_def oneTabEnv_def
      existingTab_def byBookmarkId_def byExactUrl_def findTabByUrl_def navigatedTab_def)

section \<open>Merging duplicate space folders\<close>

subsection \<open>The target's own children stay in place\<close>

lemma withChildren_sel [simp]:
  "bn_id (withChildren n cs) = bn_id n"
  "bn_title (withChildren n cs) = bn_title n"
  "bn_url (withChildren n cs) = bn_url n"
  "bn_dateAdded (withChildren n cs) = bn_dateAdded n"
  "bn_children (withChildren n cs) = cs"
  by (simp_all add: withChildren_def)

lemma map_updateFirst_same:
  "List.find P ts = Some e \<Longrightarrow> f m = f e \<Longrightarrow> map f (updateFirst P (\<lambda>_. m) ts) = map f ts"
  by (induction ts) (auto split: if_splits)

lemma mergeLoop_keeps_shape:
  "map bn_id (fst (mergeLoop tid ss ts)) = map bn_id ts \<and>
   map bn_title (fst (mergeLoop tid ss ts)) = map bn_title ts \<and>
   map bn_url (fst (mergeLoop tid ss ts)) = map bn_url ts \<and>
   map bn_dateAdded (fst (mergeLoop tid ss ts)) = map bn_dateAdded ts"
proof (induction tid ss ts rule: mergeLoop.induct)
  case (1 tid ts)
  then show ?case by simp
next
  case (2 tid s rest ts)
  show ?case
  proof (cases "bn_url s \<noteq> []")
    case True
    with 2(1,2) show ?thesis
      by (cases "existsInTarget ts s") (simp_all add: split_beta)
  next
    case False
    show ?thesis
    proof (cases "List.find (sameTitleFolder s) ts")
      case None
      with False 2(3) show ?thesis by (simp add: split_beta)
    next
      case (Some e)
      let ?r = "mergeLoop (bn_id e) (bn_children s) (bn_children e)"
      let ?m = "withChildren e (fst ?r @ fst (snd ?r))"
      let ?ts1 = "updateFirst (sameTitleFolder s) (\<lambda>_. ?m) ts"
      have ih: "map bn_id (fst (mergeLoop tid rest ?ts1)) = map bn_id ?ts1 \<and>
                map bn_title (fst (mergeLoop tid rest ?ts1)) = map bn_title ?ts1 \<and>
                map bn_url (fst (mergeLoop tid rest ?ts1)) = map bn_url ?ts1 \<and>
                map bn_dateAdded (fst (mergeLoop tid rest ?ts1)) = map bn_dateAdded ?ts1"
        using 2(5) [of e ?r "fst ?r" "snd ?r" "fst (snd ?r)" "snd (snd ?r)" ?m] False Some
        by simp
      have "map bn_id ?ts1 = map bn_id ts" "map bn_title ?ts1 = map bn_title ts"
        "map bn_url ?ts1 = map bn_url ts" "map bn_dateAdded ?ts1 = map bn_dateAdded ts"
        using Some by (simp_all add: map_updateFirst_same)
      with ih False Some show ?thesis
        by (simp add: split_beta Let_def)
    qed
  qed
qed

subsection \<open>What is moved, what is removed\<close>

lemma existsInTarget_iff: "existsInTarget ts s \<longleftrightarrow> bn_url s \<in> set (map bn_url ts)"
  unfolding existsInTarget_def list_ex_iff set_map image_iff by metis

lemma find_sameTitleFolder_None_iff:
  "List.find (sameTitleFolder s) ts = None \<longleftrightarrow>
   ([], bn_title s) \<notin> set (zip (map bn_url ts) (map bn_title ts))"
  by (induction ts) (auto simp: sameTitleFolder_def)

lemma isNewIn_shape:
  "map bn_url ts' = map bn_url ts \<Longrightarrow> map bn_title ts' = map bn_title ts \<Longrightarrow>
   isNewIn ts' s = isNewIn ts s"
  by (simp add: isNewIn_def existsInTarget_iff find_sameTitleFolder_None_iff)

lemma isNewIn_mergeLoop:
  "isNewIn (fst (mergeLoop tid ss ts)) s = isNewIn ts s"
  using mergeLoop_keeps_shape [of tid ss ts] by (intro isNewIn_shape) simp_all

lemma isNewIn_updateFirst:
  "List.find (sameTitleFolder s) ts = Some e \<Longrightarrow>
   isNewIn (updateFirst (sameTitleFolder s) (\<lambda>_. withChildren e cs) ts) x = isNewIn ts x"
  by (intro isNewIn_shape) (simp_all add: map_updateFirst_same)

lemma mergeLoop_moved:
  "fst (snd (mergeLoop tid ss ts)) = filter (isNewIn ts) ss"
proof (induction tid ss ts rule: mergeLoop.induct)
  case (1 tid ts)
  then show ?case by simp
next
  case (2 tid s rest ts)
  show ?case
  proof (cases "bn_url s \<noteq> []")
    case True
    with 2(1,2) show ?thesis
      by (cases "existsInTarget ts s") (simp_all add: split_beta isNewIn_def)
  next
    case False
    show ?thesis
    proof (cases "List.find (sameTitleFolder s) ts")
      case None
      with False 2(3) show ?thesis by (simp add: split_beta isNewIn_def)
    next
      case (Some e)
      let ?r = "mergeLoop (bn_id e) (bn_children s) (bn_children e)"
      let ?m = "withChildren e (fst ?r @ fst (snd ?r))"
      let ?ts1 = "updateFirst (sameTitleFolder s) (\<lambda>_. ?m) ts"
      have "fst (snd (mergeLoop tid rest ?ts1)) = filter (isNewIn ?ts1) rest"
        using 2(5) [of e ?r "fst ?r" "snd ?r" "fst (snd ?r)" "snd (snd ?r)" ?m] False Some
        by simp
      moreover have "isNewIn ?ts1 = isNewIn ts"
        using isNewIn_updateFirst [OF Some] by (simp add: fun_eq_iff)
      moreover have "\<not> isNewIn ts s"
        using False Some by (simp add: isNewIn_def)
      ultimately show ?thesis
        using False Some by (simp add: split_beta Let_def)
    qed
  qed
qed

lemma mergeLoop_calls:
  "x \<in> set ss \<Longrightarrow>
   (if isNewIn ts x then Move (bn_id x) tid else Remove (bn_id x)) \<in> set (snd (snd (mergeLoop tid ss ts)))"
proof (induction tid ss ts rule: mergeLoop.induct)
  case (1 tid ts)
  then show ?case by simp
next
  case (2 tid s rest ts)
  show ?case
  proof (cases "bn_url s \<noteq> []")
    case True
    with 2(1,2,6) show ?thesis
      by (cases "existsInTarget ts s") (auto simp: split_beta isNewIn_def)
  next
    case False
    show ?thesis
    proof (cases "List.find (sameTitleFolder s) ts")
      case None
      with False 2(3,6) show ?thesis by (auto simp: split_beta isNewIn_def)
    next
      case (Some e)
      let ?r = "mergeLoop (bn_id e) (bn_children s) (bn_children e)"
      let ?m = "withChildren e (fst ?r @ fst (snd ?r))"
      let ?ts1 = "updateFirst (sameTitleFolder s) (\<lambda>_. ?m) ts"
      have ih: "x \<in> set rest \<Longrightarrow>
          (if isNewIn ?ts1 x then Move (bn_id x) tid else Remove (bn_id x))
            \<in> set (snd (snd (mergeLoop tid rest ?ts1)))"
        using 2(5) [of e ?r "fst ?r" "snd ?r" "fst (snd ?r)" "snd (snd ?r)" ?m] False Some
        by simp
      have n: "isNewIn ?ts1 x = isNewIn ts x"
        by (rule isNewIn_updateFirst [OF Some])
      have s: "\<not> isNewIn ts s"
        using False Some by (simp add: isNewIn_def)
      show ?thesis
      proof (cases "x = s")
        case True
        with s False Some show ?thesis by (simp add: split_beta Let_def)
      next
        case ne: False
        with 2(6) have "x \<in> set rest" by simp
        from ih [OF this] n False Some show ?thesis
          by (auto simp: split_beta Let_def)
      qed
    qed
  qed
qed

subsection \<open>No URL is lost, none is invented\<close>

lemma allUrls_folder: "bn_url n = [] \<Longrightarrow> allUrls n = urlsOf (bn_children n)"
  by (cases n) (simp add: urlsOf_def)

lemma allUrls_bookmark: "bn_url n \<noteq> [] \<Longrightarrow> allUrls n = {bn_url n}"
  by (cases n) simp

lemma urlsOf_simps [simp]:
  "urlsOf [] = {}"
  "urlsOf (n # ns) = allUrls n \<union> urlsOf ns"
  "urlsOf (xs @ ys) = urlsOf xs \<union> urlsOf ys"
  by (auto simp: urlsOf_def)

lemma allUrls_withChildren:
  "bn_url n = [] \<Longrightarrow> allUrls (withChildren n cs) = urlsOf cs"
  by (simp add: allUrls_folder)

lemma urlsOf_updateFirst:
  assumes "List.find P ts = Some e" "allUrls e \<subseteq> allUrls m"
  shows "urlsOf (updateFirst P (\<lambda>_. m) ts) = urlsOf ts \<union> allUrls m"
  using assms by (induction ts) (auto split: if_splits)

lemma existsInTarget_url:
  assumes "existsInTarget ts s" "bn_url s \<noteq> []"
  shows "bn_url s \<in> urlsOf ts"
proof -
  from assms(1) obtain t where t: "t \<in> set ts" "bn_url t = bn_url s"
    by (auto simp: existsInTarget_def list_ex_iff)
  with assms(2) have "allUrls t = {bn_url s}" by (simp add: allUrls_bookmark)
  with t(1) show ?thesis by (auto simp: urlsOf_def)
qed

lemma find_sameTitleFolder_Some:
  "List.find (sameTitleFolder s) ts = Some e \<Longrightarrow>
   e \<in> set ts \<and> bn_url e = [] \<and> bn_title e = bn_title s"
  by (auto simp: find_Some_iff sameTitleFolder_def)

lemma mergeLoop_urls:
  "urlsOf (fst (mergeLoop tid ss ts) @ fst (snd (mergeLoop tid ss ts))) = urlsOf ts \<union> urlsOf ss"
proof (induction tid ss ts rule: mergeLoop.induct)
  case (1 tid ts)
  then show ?case by simp
next
  case (2 tid s rest ts)
  show ?case
  proof (cases "bn_url s \<noteq> []")
    case True
    show ?thesis
    proof (cases "existsInTarget ts s")
      case ex: True
      have "allUrls s \<subseteq> urlsOf ts"
        using existsInTarget_url [OF ex True] True by (simp add: allUrls_bookmark)
      with 2(2) True ex show ?thesis
        by (auto simp: split_beta)
    next
      case nex: False
      with 2(1) True show ?thesis
        by (auto simp: split_beta)
    qed
  next
    case False
    show ?thesis
    proof (cases "List.find (sameTitleFolder s) ts")
      case None
      with False 2(3) show ?thesis by (auto simp: split_beta)
    next
      case (Some e)
      let ?r = "mergeLoop (bn_id e) (bn_children s) (bn_children e)"
      let ?m = "withChildren e (fst ?r @ fst (snd ?r))"
      let ?ts1 = "updateFirst (sameTitleFolder s) (\<lambda>_. ?m) ts"
      note e = find_sameTitleFolder_Some [OF Some]
      have sub: "urlsOf (fst ?r @ fst (snd ?r)) = urlsOf (bn_children e) \<union> urlsOf (bn_children s)"
        using 2(4) [OF _ Some] False by simp
      have m: "allUrls ?m = allUrls e \<union> allUrls s"
        using e False sub by (simp add: allUrls_withChildren allUrls_folder del: urlsOf_simps(3))
      then have "allUrls e \<subseteq> allUrls ?m" by simp
      from urlsOf_updateFirst [OF Some this] m
      have ts1: "urlsOf ?ts1 = urlsOf ts \<union> allUrls s"
        using e by (auto simp: urlsOf_def)
      have "urlsOf (fst (mergeLoop tid rest ?ts1) @ fst (snd (mergeLoop tid rest ?ts1))) =
            urlsOf ?ts1 \<union> urlsOf rest"
        using 2(5) [of e ?r "fst ?r" "snd ?r" "fst (snd ?r)" "snd (snd ?r)" ?m] False Some
        by simp
      with ts1 False Some show ?thesis
        by (simp add: split_beta Let_def Un_ac del: urlsOf_simps(3))
    qed
  qed
qed

subsection \<open>One duplicate folder, and a group of them\<close>

lemma mergeFolderContentsRecursive_shape:
  "bn_id (fst (mergeFolderContentsRecursive src tgt)) = bn_id tgt"
  "bn_title (fst (mergeFolderContentsRecursive src tgt)) = bn_title tgt"
  "bn_url (fst (mergeFolderContentsRecursive src tgt)) = bn_url tgt"
  "bn_dateAdded (fst (mergeFolderContentsRecursive src tgt)) = bn_dateAdded tgt"
  by (simp_all add: mergeFolderContentsRecursive_def split_beta)

lemma mergeFolderContentsRecursive_urls:
  "bn_url src = [] \<Longrightarrow> bn_url tgt = [] \<Longrightarrow>
   allUrls (fst (mergeFolderContentsRecursive src tgt)) = allUrls tgt \<union> allUrls src"
  using mergeLoop_urls [of "bn_id tgt" "bn_children src" "bn_children tgt"]
  by (simp add: mergeFolderContentsRecursive_def split_beta allUrls_withChildren allUrls_folder
      del: urlsOf_simps(3))

lemma mergeSources_shape:
  "bn_id (fst (mergeSources tgt srcs)) = bn_id tgt \<and>
   bn_title (fst (mergeSources tgt srcs)) = bn_title tgt \<and>
   bn_url (fst (mergeSources tgt srcs)) = bn_url tgt \<and>
   bn_dateAdded (fst (mergeSources tgt srcs)) = bn_dateAdded tgt"
  by (induction srcs arbitrary: tgt)
     (simp_all add: split_beta mergeFolderContentsRecursive_shape)

lemma mergeSources_urls:
  "bn_url tgt = [] \<Longrightarrow> \<forall>s\<in>set srcs. bn_url s = [] \<Longrightarrow>
   allUrls (fst (mergeSources tgt srcs)) = allUrls tgt \<union> urlsOf srcs"
proof (induction srcs arbitrary: tgt)
  case Nil
  then show ?case by simp
next
  case (Cons src rest)
  let ?t1 = "fst (mergeFolderContentsRecursive src tgt)"
  have "allUrls (fst (mergeSources ?t1 rest)) = allUrls ?t1 \<union> urlsOf rest"
    using Cons.IH [of ?t1] Cons.prems
    by (simp add: mergeFolderContentsRecursive_shape)
  with Cons.prems show ?case
    by (simp add: split_beta mergeFolderContentsRecursive_urls Un_ac)
qed

lemma mergeSources_removes:
  "s \<in> set srcs \<Longrightarrow> Remove (bn_id s) \<in> set (snd (mergeSources tgt srcs))"
  by (induction srcs arbitrary: tgt) (auto simp: split_beta)

subsection \<open>One round of the outer loop\<close>

lemma filter_concat_map:
  "(\<And>c. c \<in> set cs \<Longrightarrow> filter P (f c) = (if Q c then [g c] else [])) \<Longrightarrow>
   filter P (concat (map f cs)) = map g (filter Q cs)"
  by (induction cs) auto

lemma map_concat_map:
  "(\<And>c. c \<in> set cs \<Longrightarrow> map h (f c) = (if Q c then [g c] else [])) \<Longrightarrow>
   map h (concat (map f cs)) = map g (filter Q cs)"
  by (induction cs) auto

lemma filter_same_key_single:
  assumes "distinct (map k cs)" "t \<in> set cs"
  shows "filter (\<lambda>c. k c = k t) cs = [t]"
  using assms
proof (induction cs)
  case Nil
  then show ?case by simp
next
  case (Cons c cs)
  show ?case
  proof (cases "c = t")
    case True
    with Cons.prems(1) have "k t \<notin> k ` set cs" by simp
    then have "\<forall>x\<in>set cs. k x \<noteq> k t" by (metis imageI)
    then have "filter (\<lambda>c. k c = k t) cs = []"
      by (simp add: filter_empty_conv)
    with True show ?thesis by simp
  next
    case False
    with Cons.prems have t: "t \<in> set cs" by simp
    then have "k t \<in> set (map k cs)" by simp
    with Cons.prems(1) have "k c \<noteq> k t" by auto
    with Cons.IH t Cons.prems(1) show ?thesis by simp
  qed
qed

lemma urlsOf_filter_split:
  "urlsOf cs = urlsOf (filter P cs) \<union> urlsOf (filter (\<lambda>c. \<not> P c) cs)"
  by (induction cs) auto

lemma urlsOf_cong_set: "set xs = set ys \<Longrightarrow> urlsOf xs = urlsOf ys"
  by (simp add: urlsOf_def)

text \<open>The group's target is its oldest folder, and the sorted group is the group.\<close>

lemma oldestFirst_props:
  assumes "grp \<noteq> []"
  shows "hd (oldestFirst grp) \<in> set grp"
    and "\<forall>f\<in>set grp. bn_dateAdded (hd (oldestFirst grp)) \<le> bn_dateAdded f"
    and "set (hd (oldestFirst grp) # tl (oldestFirst grp)) = set grp"
proof -
  let ?s = "oldestFirst grp"
  have "length ?s = length grp" by (simp add: oldestFirst_def)
  then have ne: "?s \<noteq> []" using assms by auto
  have set: "set ?s = set grp" by (simp add: oldestFirst_def)
  have sorted: "sorted (map bn_dateAdded ?s)" by (simp add: oldestFirst_def)
  from ne obtain a as where s: "?s = a # as" by (cases ?s) auto
  show "hd ?s \<in> set grp" using s set by auto
  show "\<forall>f\<in>set grp. bn_dateAdded (hd ?s) \<le> bn_dateAdded f"
    using sorted s set by auto
  show "set (hd ?s # tl ?s) = set grp" using s set by simp
qed

lemma mergeGroup_small:
  "length (folderGroup name cur) \<le> 1 \<Longrightarrow> mergeGroup name (cur, calls) = (cur, calls)"
  by (simp add: mergeGroup_def Let_def)

lemma mergeGroup_step:
  fixes cur :: "bnode list" and name :: string and calls :: "bm_call list"
  defines "grp \<equiv> folderGroup name cur"
  defines "tgt \<equiv> hd (oldestFirst grp)"
  defines "merged \<equiv> fst (mergeSources tgt (tl (oldestFirst grp)))"
  defines "cur' \<equiv> fst (mergeGroup name (cur, calls))"
  assumes d: "distinct (map bn_id cur)" and big: "length (folderGroup name cur) > 1"
  shows "folderGroup name cur' = [merged]"
    and "\<And>m. m \<noteq> name \<Longrightarrow> folderGroup m cur' = folderGroup m cur"
    and "map bn_id cur' =
           map bn_id (filter (\<lambda>c. \<not> (isFolder c \<and> bn_title c = name \<and> bn_id c \<noteq> bn_id tgt)) cur)"
    and "urlsOf cur' = urlsOf cur"
    and "snd (mergeGroup name (cur, calls)) = calls @ snd (mergeSources tgt (tl (oldestFirst grp)))"
    and "filter (\<lambda>c. \<not> isFolder c) cur' = filter (\<lambda>c. \<not> isFolder c) cur"
proof -
  let ?P = "\<lambda>c. isFolder c \<and> bn_title c = name"
  let ?f = "\<lambda>c. if ?P c then (if bn_id c = bn_id tgt then [merged] else []) else [c]"
  have ne: "grp \<noteq> []" using big by (auto simp: grp_def)
  have tin: "tgt \<in> set grp" unfolding tgt_def by (rule oldestFirst_props(1) [OF ne])
  then have tcur: "tgt \<in> set cur" and Pt: "?P tgt" by (auto simp: grp_def folderGroup_def)
  have msh: "bn_id merged = bn_id tgt" "bn_title merged = name" "bn_url merged = []"
    using mergeSources_shape [of tgt "tl (oldestFirst grp)"] Pt
    by (simp_all add: merged_def isFolder_def)
  then have Pm: "?P merged" by (simp add: isFolder_def)
  have cur': "cur' = concat (map ?f cur)"
    unfolding cur'_def merged_def tgt_def grp_def using big
    by (simp add: mergeGroup_def Let_def split_beta)
  have same: "c = tgt" if "c \<in> set cur" "bn_id c = bn_id tgt" for c
    using that tcur d by (meson distinct_map inj_onD)
  show A: "folderGroup name cur' = [merged]"
  proof -
    have "filter ?P (?f c) = (if bn_id c = bn_id tgt then [(\<lambda>_. merged) c] else [])"
      if "c \<in> set cur" for c
      using Pm Pt same [OF that] by auto
    then have "filter ?P (concat (map ?f cur)) =
               map (\<lambda>_. merged) (filter (\<lambda>c. bn_id c = bn_id tgt) cur)"
      by (rule filter_concat_map)
    then show ?thesis
      by (simp add: folderGroup_def cur' filter_same_key_single [OF d tcur])
  qed
  show B: "folderGroup m cur' = folderGroup m cur" if "m \<noteq> name" for m
  proof -
    let ?Q = "\<lambda>c. isFolder c \<and> bn_title c = m"
    have "filter ?Q (?f c) = (if ?Q c then [(\<lambda>c. c) c] else [])" if "c \<in> set cur" for c
      using msh \<open>m \<noteq> name\<close> by auto
    then have "filter ?Q (concat (map ?f cur)) = map (\<lambda>c. c) (filter ?Q cur)"
      by (rule filter_concat_map)
    then show ?thesis by (simp add: folderGroup_def cur')
  qed
  show "map bn_id cur' =
           map bn_id (filter (\<lambda>c. \<not> (isFolder c \<and> bn_title c = name \<and> bn_id c \<noteq> bn_id tgt)) cur)"
  proof -
    have "map bn_id (?f c) =
          (if \<not> (isFolder c \<and> bn_title c = name \<and> bn_id c \<noteq> bn_id tgt) then [bn_id c] else [])"
      if "c \<in> set cur" for c
      using msh by auto
    then have "map bn_id (concat (map ?f cur)) =
        map bn_id (filter (\<lambda>c. \<not> (isFolder c \<and> bn_title c = name \<and> bn_id c \<noteq> bn_id tgt)) cur)"
      by (rule map_concat_map)
    then show ?thesis by (simp add: cur')
  qed
  show F: "filter (\<lambda>c. \<not> isFolder c) cur' = filter (\<lambda>c. \<not> isFolder c) cur"
  proof -
    have "filter (\<lambda>c. \<not> isFolder c) (?f c) = (if \<not> isFolder c then [(\<lambda>c. c) c] else [])"
      if "c \<in> set cur" for c
      using Pm by auto
    then have "filter (\<lambda>c. \<not> isFolder c) (concat (map ?f cur)) =
               map (\<lambda>c. c) (filter (\<lambda>c. \<not> isFolder c) cur)"
      by (rule filter_concat_map)
    then show ?thesis by (simp add: cur')
  qed
  show "urlsOf cur' = urlsOf cur"
  proof -
    have notP: "filter (\<lambda>c. \<not> ?P c) cur' = filter (\<lambda>c. \<not> ?P c) cur"
    proof -
      have "filter (\<lambda>c. \<not> ?P c) (?f c) = (if \<not> ?P c then [(\<lambda>c. c) c] else [])"
        if "c \<in> set cur" for c
        using Pm by auto
      then have "filter (\<lambda>c. \<not> ?P c) (concat (map ?f cur)) =
                 map (\<lambda>c. c) (filter (\<lambda>c. \<not> ?P c) cur)"
        by (rule filter_concat_map)
      then show ?thesis by (simp add: cur')
    qed
    have folders: "\<forall>s\<in>set (tl (oldestFirst grp)). bn_url s = []"
    proof
      fix s assume "s \<in> set (tl (oldestFirst grp))"
      then have "s \<in> set grp"
        using oldestFirst_props(3) [OF ne] by auto
      then show "bn_url s = []" by (simp add: grp_def folderGroup_def isFolder_def)
    qed
    have "allUrls merged = allUrls tgt \<union> urlsOf (tl (oldestFirst grp))"
      unfolding merged_def using Pt folders
      by (intro mergeSources_urls) (simp_all add: isFolder_def)
    also have "\<dots> = urlsOf (tgt # tl (oldestFirst grp))" by simp
    also have "\<dots> = urlsOf grp"
      unfolding tgt_def by (rule urlsOf_cong_set) (rule oldestFirst_props(3) [OF ne])
    finally have m: "allUrls merged = urlsOf (filter ?P cur)"
      by (simp add: grp_def folderGroup_def)
    have "urlsOf cur' = urlsOf (filter ?P cur') \<union> urlsOf (filter (\<lambda>c. \<not> ?P c) cur')"
      by (rule urlsOf_filter_split)
    also have "\<dots> = urlsOf (filter ?P cur) \<union> urlsOf (filter (\<lambda>c. \<not> ?P c) cur)"
      using A m notP by (simp add: folderGroup_def)
    also have "\<dots> = urlsOf cur"
      by (rule urlsOf_filter_split [symmetric])
    finally show ?thesis .
  qed
  show "snd (mergeGroup name (cur, calls)) = calls @ snd (mergeSources tgt (tl (oldestFirst grp)))"
    unfolding tgt_def grp_def using big by (simp add: mergeGroup_def Let_def split_beta)
qed

subsection \<open>The whole outer loop\<close>

lemma mergeGroups_simps [simp]:
  "mergeGroups [] state = state"
  "mergeGroups (n # ns) state = mergeGroups ns (mergeGroup n state)"
  by (simp_all add: mergeGroups_def)

lemma mergeGroup_pair: "mergeGroup n (cur, calls) = (fst (mergeGroup n (cur, calls)), snd (mergeGroup n (cur, calls)))"
  by simp

text \<open>What one round keeps, whether or not the group has duplicates.\<close>

lemma mergeGroup_round:
  assumes d: "distinct (map bn_id cur)"
  shows "distinct (map bn_id (fst (mergeGroup name (cur, calls))))"
    and "length (folderGroup name (fst (mergeGroup name (cur, calls)))) \<le> 1"
    and "\<And>m. m \<noteq> name \<Longrightarrow>
           folderGroup m (fst (mergeGroup name (cur, calls))) = folderGroup m cur"
    and "urlsOf (fst (mergeGroup name (cur, calls))) = urlsOf cur"
    and "set (map bn_id (fst (mergeGroup name (cur, calls)))) \<subseteq> set (map bn_id cur)"
    and "filter (\<lambda>c. \<not> isFolder c) (fst (mergeGroup name (cur, calls))) =
           filter (\<lambda>c. \<not> isFolder c) cur"
    and "set calls \<subseteq> set (snd (mergeGroup name (cur, calls)))"
proof -
  show "distinct (map bn_id (fst (mergeGroup name (cur, calls))))"
  proof (cases "length (folderGroup name cur) > 1")
    case True
    show ?thesis
      unfolding mergeGroup_step(3) [OF d True] using d by (rule distinct_map_filter)
  next
    case False
    then show ?thesis using d by (simp add: mergeGroup_small)
  qed
  show "length (folderGroup name (fst (mergeGroup name (cur, calls)))) \<le> 1"
  proof (cases "length (folderGroup name cur) > 1")
    case True
    show ?thesis by (simp add: mergeGroup_step(1) [OF d True])
  next
    case False
    then show ?thesis by (simp add: mergeGroup_small)
  qed
  show "folderGroup m (fst (mergeGroup name (cur, calls))) = folderGroup m cur" if "m \<noteq> name" for m
  proof (cases "length (folderGroup name cur) > 1")
    case True
    show ?thesis by (rule mergeGroup_step(2) [OF d True that])
  next
    case False
    then show ?thesis by (simp add: mergeGroup_small)
  qed
  show "urlsOf (fst (mergeGroup name (cur, calls))) = urlsOf cur"
  proof (cases "length (folderGroup name cur) > 1")
    case True
    show ?thesis by (rule mergeGroup_step(4) [OF d True])
  next
    case False
    then show ?thesis by (simp add: mergeGroup_small)
  qed
  show "set (map bn_id (fst (mergeGroup name (cur, calls)))) \<subseteq> set (map bn_id cur)"
  proof (cases "length (folderGroup name cur) > 1")
    case True
    show ?thesis unfolding mergeGroup_step(3) [OF d True] by auto
  next
    case False
    then show ?thesis by (simp add: mergeGroup_small)
  qed
  show "filter (\<lambda>c. \<not> isFolder c) (fst (mergeGroup name (cur, calls))) =
           filter (\<lambda>c. \<not> isFolder c) cur"
  proof (cases "length (folderGroup name cur) > 1")
    case True
    show ?thesis by (rule mergeGroup_step(6) [OF d True])
  next
    case False
    then show ?thesis by (simp add: mergeGroup_small)
  qed
  show "set calls \<subseteq> set (snd (mergeGroup name (cur, calls)))"
  proof (cases "length (folderGroup name cur) > 1")
    case True
    show ?thesis by (simp add: mergeGroup_step(5) [OF d True])
  next
    case False
    then show ?thesis by (simp add: mergeGroup_small)
  qed
qed

lemma mergeGroups_invariant:
  assumes "distinct (map bn_id cur)"
  shows "distinct (map bn_id (fst (mergeGroups ns (cur, calls)))) \<and>
         (\<forall>n\<in>set ns. length (folderGroup n (fst (mergeGroups ns (cur, calls)))) \<le> 1) \<and>
         (\<forall>m. m \<notin> set ns \<longrightarrow>
               folderGroup m (fst (mergeGroups ns (cur, calls))) = folderGroup m cur) \<and>
         urlsOf (fst (mergeGroups ns (cur, calls))) = urlsOf cur \<and>
         set (map bn_id (fst (mergeGroups ns (cur, calls)))) \<subseteq> set (map bn_id cur) \<and>
         filter (\<lambda>c. \<not> isFolder c) (fst (mergeGroups ns (cur, calls))) =
           filter (\<lambda>c. \<not> isFolder c) cur \<and>
         set calls \<subseteq> set (snd (mergeGroups ns (cur, calls)))"
  using assms
proof (induction ns arbitrary: cur calls)
  case Nil
  then show ?case by simp
next
  case (Cons n ns)
  let ?c1 = "fst (mergeGroup n (cur, calls))" and ?k1 = "snd (mergeGroup n (cur, calls))"
  note r = mergeGroup_round [OF Cons.prems, where name = n and calls = calls]
  note ih = Cons.IH [OF r(1), where calls = ?k1]
  have eq: "mergeGroups (n # ns) (cur, calls) = mergeGroups ns (?c1, ?k1)"
    by simp
  have one: "length (folderGroup n (fst (mergeGroups ns (?c1, ?k1)))) \<le> 1"
  proof (cases "n \<in> set ns")
    case True
    with ih show ?thesis by blast
  next
    case False
    with ih have "folderGroup n (fst (mergeGroups ns (?c1, ?k1))) = folderGroup n ?c1" by blast
    with r(2) show ?thesis by simp
  qed
  have others: "folderGroup m (fst (mergeGroups ns (?c1, ?k1))) = folderGroup m cur"
    if "m \<notin> set (n # ns)" for m
  proof -
    from that have "m \<noteq> n" "m \<notin> set ns" by auto
    with ih r(3) [of m] show ?thesis by simp
  qed
  let ?res = "mergeGroups ns (?c1, ?k1)"
  from ih have i1: "distinct (map bn_id (fst ?res))"
    and i2: "\<forall>k\<in>set ns. length (folderGroup k (fst ?res)) \<le> 1"
    and i4: "urlsOf (fst ?res) = urlsOf ?c1"
    and i5: "set (map bn_id (fst ?res)) \<subseteq> set (map bn_id ?c1)"
    and i6: "filter (\<lambda>c. \<not> isFolder c) (fst ?res) = filter (\<lambda>c. \<not> isFolder c) ?c1"
    and i7: "set ?k1 \<subseteq> set (snd ?res)"
    by blast+
  have c2: "\<forall>k\<in>set (n # ns). length (folderGroup k (fst ?res)) \<le> 1"
    using one i2 by simp
  have c3: "\<forall>m. m \<notin> set (n # ns) \<longrightarrow> folderGroup m (fst ?res) = folderGroup m cur"
    using others by blast
  have c4: "urlsOf (fst ?res) = urlsOf cur" using i4 r(4) by simp
  have c5: "set (map bn_id (fst ?res)) \<subseteq> set (map bn_id cur)"
    using i5 r(5) by (rule subset_trans)
  have c6: "filter (\<lambda>c. \<not> isFolder c) (fst ?res) = filter (\<lambda>c. \<not> isFolder c) cur"
    using i6 r(6) by simp
  have c7: "set calls \<subseteq> set (snd ?res)"
    using r(7) i7 by (rule subset_trans)
  show ?case
    unfolding eq by (intro conjI i1 c2 c3 c4 c5 c6 c7)
qed

lemma mergeGroups_small_group:
  assumes "distinct (map bn_id cur)" "length (folderGroup name cur) \<le> 1"
  shows "folderGroup name (fst (mergeGroups ns (cur, calls))) = folderGroup name cur"
  using assms
proof (induction ns arbitrary: cur calls)
  case Nil
  then show ?case by simp
next
  case (Cons n ns)
  let ?c1 = "fst (mergeGroup n (cur, calls))" and ?k1 = "snd (mergeGroup n (cur, calls))"
  note r = mergeGroup_round [OF Cons.prems(1), where name = n and calls = calls]
  have g1: "folderGroup name ?c1 = folderGroup name cur"
  proof (cases "n = name")
    case True
    with Cons.prems(2) show ?thesis by (simp add: mergeGroup_small)
  next
    case False
    then show ?thesis using r(3) [of name] by simp
  qed
  have "folderGroup name (fst (mergeGroups ns (?c1, ?k1))) = folderGroup name ?c1"
    using Cons.IH [OF r(1), where calls = ?k1] Cons.prems(2) g1 by simp
  with g1 show ?case by simp
qed

lemma mergeGroups_removes:
  assumes d: "distinct (map bn_id cur)" and n: "name \<in> set ns"
    and big: "length (folderGroup name cur) > 1"
    and g: "g \<in> set (folderGroup name cur)"
    and ng: "bn_id g \<noteq> bn_id (hd (oldestFirst (folderGroup name cur)))"
  shows "Remove (bn_id g) \<in> set (snd (mergeGroups ns (cur, calls))) \<and>
         bn_id g \<notin> set (map bn_id (fst (mergeGroups ns (cur, calls)))) \<and>
         bn_id (hd (oldestFirst (folderGroup name cur)))
           \<in> set (map bn_id (fst (mergeGroups ns (cur, calls))))"
  using assms
proof (induction ns arbitrary: cur calls)
  case Nil
  then show ?case by simp
next
  case (Cons k ns)
  let ?c1 = "fst (mergeGroup k (cur, calls))" and ?k1 = "snd (mergeGroup k (cur, calls))"
  let ?grp = "folderGroup name cur"
  let ?tgt = "hd (oldestFirst ?grp)"
  note r = mergeGroup_round [OF Cons.prems(1), where name = k and calls = calls]
  note inv = mergeGroups_invariant [OF r(1), where ns = ns and calls = ?k1]
  show ?case
  proof (cases "k = name")
    case True
    have ne: "?grp \<noteq> []" using Cons.prems(3) by auto
    have gcur: "g \<in> set cur" using Cons.prems(4) by (simp add: folderGroup_def)
    have "g \<in> set (?tgt # tl (oldestFirst ?grp))"
      using oldestFirst_props(3) [OF ne] Cons.prems(4) by simp
    moreover have "g \<noteq> ?tgt" using Cons.prems(5) by auto
    ultimately have "g \<in> set (tl (oldestFirst ?grp))" by simp
    then have "Remove (bn_id g) \<in> set ?k1"
      using mergeGroup_step(5) [OF Cons.prems(1,3), of calls] True
      by (simp add: mergeSources_removes)
    then have a: "Remove (bn_id g) \<in> set (snd (mergeGroups ns (?c1, ?k1)))"
      using inv by blast
    have "bn_id g \<notin> set (map bn_id ?c1)"
    proof
      assume "bn_id g \<in> set (map bn_id ?c1)"
      then obtain c where c: "c \<in> set cur" "bn_id c = bn_id g"
        "\<not> (isFolder c \<and> bn_title c = name \<and> bn_id c \<noteq> bn_id ?tgt)"
        using mergeGroup_step(3) [OF Cons.prems(1,3), of calls] True by auto
      with gcur Cons.prems(1) have "c = g" by (meson distinct_map inj_onD)
      with c(3) Cons.prems(4,5) show False by (simp add: folderGroup_def)
    qed
    then have b: "bn_id g \<notin> set (map bn_id (fst (mergeGroups ns (?c1, ?k1))))"
      using inv by blast
    have one: "folderGroup name ?c1 = [fst (mergeSources ?tgt (tl (oldestFirst ?grp)))]"
      using mergeGroup_step(1) [OF Cons.prems(1,3), of calls] True by simp
    then have "folderGroup name (fst (mergeGroups ns (?c1, ?k1))) =
               [fst (mergeSources ?tgt (tl (oldestFirst ?grp)))]"
      using mergeGroups_small_group [OF r(1), of name ns ?k1] by simp
    then have "fst (mergeSources ?tgt (tl (oldestFirst ?grp)))
               \<in> set (folderGroup name (fst (mergeGroups ns (?c1, ?k1))))"
      by simp
    then have "fst (mergeSources ?tgt (tl (oldestFirst ?grp)))
               \<in> set (fst (mergeGroups ns (?c1, ?k1)))"
      unfolding folderGroup_def by simp
    then have "bn_id (fst (mergeSources ?tgt (tl (oldestFirst ?grp))))
               \<in> set (map bn_id (fst (mergeGroups ns (?c1, ?k1))))"
      by simp
    then have c: "bn_id ?tgt \<in> set (map bn_id (fst (mergeGroups ns (?c1, ?k1))))"
      by (simp add: mergeSources_shape)
    from a b c show ?thesis by simp
  next
    case False
    with Cons.prems(2) have n': "name \<in> set ns" by simp
    have g1: "folderGroup name ?c1 = folderGroup name cur"
      using r(3) [of name] False by simp
    from Cons.IH [OF r(1) n', where calls = ?k1] Cons.prems(3,4,5) g1
    show ?thesis by simp
  qed
qed

lemma set_firstOccurrences [simp]: "set (firstOccurrences xs) = set xs"
  by (induction xs) auto

lemma distinct_firstOccurrences: "distinct (firstOccurrences xs)"
  by (induction xs) auto

lemma distinct_if_single_groups:
  "(\<And>a. length (filter (\<lambda>x. f x = a) xs) \<le> 1) \<Longrightarrow> distinct (map f xs)"
proof (induction xs)
  case Nil
  then show ?case by simp
next
  case (Cons x xs)
  have "length (filter (\<lambda>y. f y = a) xs) \<le> 1" for a
    using Cons.prems [of a] by (simp split: if_splits)
  then have d: "distinct (map f xs)" by (rule Cons.IH)
  have "f x \<notin> f ` set xs"
  proof
    assume "f x \<in> f ` set xs"
    then obtain y where "y \<in> set xs" "f y = f x" by auto
    then have "filter (\<lambda>y. f y = f x) xs \<noteq> []" by (auto simp: filter_empty_conv)
    then have "length (filter (\<lambda>y. f y = f x) xs) \<ge> 1" by (simp add: Suc_leI)
    with Cons.prems [of "f x"] show False by simp
  qed
  with d show ?case by simp
qed

subsection \<open>The routine as a whole\<close>

lemma merged_titles_distinct:
  assumes d: "distinct (map bn_id (bn_children root))"
  shows "distinct (map bn_title (filter isFolder (mergedChildren root)))"
proof (rule distinct_if_single_groups)
  fix a
  let ?cs = "bn_children root"
  note inv = mergeGroups_invariant [OF d, where ns = "folderNames root" and calls = "[]"]
  have "length (folderGroup a (mergedChildren root)) \<le> 1"
  proof (cases "a \<in> set (folderNames root)")
    case True
    with inv show ?thesis by (simp add: mergedChildren_def)
  next
    case False
    with inv have "folderGroup a (mergedChildren root) = folderGroup a ?cs"
      by (simp add: mergedChildren_def)
    moreover have "folderGroup a ?cs = []"
      using False by (auto simp: folderNames_def folderGroup_def filter_empty_conv)
    ultimately show ?thesis by simp
  qed
  then show "length (filter (\<lambda>x. bn_title x = a) (filter isFolder (mergedChildren root))) \<le> 1"
    by (simp add: folderGroup_def)
qed

lemma mergeGroups_keeps_target:
  assumes d: "distinct (map bn_id cur)" and n: "name \<in> set ns"
    and big: "length (folderGroup name cur) > 1"
  shows "bn_id (hd (oldestFirst (folderGroup name cur)))
           \<in> set (map bn_id (fst (mergeGroups ns (cur, calls))))"
  using assms
proof (induction ns arbitrary: cur calls)
  case Nil
  then show ?case by simp
next
  case (Cons k ns)
  let ?c1 = "fst (mergeGroup k (cur, calls))" and ?k1 = "snd (mergeGroup k (cur, calls))"
  let ?grp = "folderGroup name cur"
  let ?tgt = "hd (oldestFirst ?grp)"
  note r = mergeGroup_round [OF Cons.prems(1), where name = k and calls = calls]
  show ?case
  proof (cases "k = name")
    case True
    have one: "folderGroup name ?c1 = [fst (mergeSources ?tgt (tl (oldestFirst ?grp)))]"
      using mergeGroup_step(1) [OF Cons.prems(1,3), of calls] True by simp
    then have "folderGroup name (fst (mergeGroups ns (?c1, ?k1))) =
               [fst (mergeSources ?tgt (tl (oldestFirst ?grp)))]"
      using mergeGroups_small_group [OF r(1), of name ns ?k1] by simp
    then have "fst (mergeSources ?tgt (tl (oldestFirst ?grp)))
               \<in> set (folderGroup name (fst (mergeGroups ns (?c1, ?k1))))"
      by simp
    then have "fst (mergeSources ?tgt (tl (oldestFirst ?grp)))
               \<in> set (fst (mergeGroups ns (?c1, ?k1)))"
      unfolding folderGroup_def by simp
    then have "bn_id (fst (mergeSources ?tgt (tl (oldestFirst ?grp))))
               \<in> set (map bn_id (fst (mergeGroups ns (?c1, ?k1))))"
      by simp
    then show ?thesis by (simp add: mergeSources_shape)
  next
    case False
    with Cons.prems(2) have n': "name \<in> set ns" by simp
    have g1: "folderGroup name ?c1 = folderGroup name cur"
      using r(3) [of name] False by simp
    from Cons.IH [OF r(1) n', where calls = ?k1] Cons.prems(3) g1
    show ?thesis by simp
  qed
qed

lemma merged_keeps_oldest:
  assumes d: "distinct (map bn_id (bn_children root))"
    and f: "f \<in> set (bn_children root)" "isFolder f"
  defines "grp \<equiv> folderGroup (bn_title f) (bn_children root)"
  shows "hd (oldestFirst grp) \<in> set grp"
    and "\<forall>h\<in>set grp. bn_dateAdded (hd (oldestFirst grp)) \<le> bn_dateAdded h"
    and "bn_id (hd (oldestFirst grp)) \<in> set (map bn_id (mergedChildren root))"
    and "bn_id f \<noteq> bn_id (hd (oldestFirst grp)) \<Longrightarrow>
           Remove (bn_id f) \<in> set (mergeCalls root) \<and>
           bn_id f \<notin> set (map bn_id (mergedChildren root))"
proof -
  have fg: "f \<in> set grp" using f by (simp add: grp_def folderGroup_def)
  then have ne: "grp \<noteq> []" by auto
  have name: "bn_title f \<in> set (folderNames root)"
    using f by (simp add: folderNames_def)
  show k: "hd (oldestFirst grp) \<in> set grp" by (rule oldestFirst_props(1) [OF ne])
  show "\<forall>h\<in>set grp. bn_dateAdded (hd (oldestFirst grp)) \<le> bn_dateAdded h"
    by (rule oldestFirst_props(2) [OF ne])
  show "bn_id (hd (oldestFirst grp)) \<in> set (map bn_id (mergedChildren root))"
  proof (cases "length grp > 1")
    case True
    then show ?thesis
      unfolding grp_def mergedChildren_def
      by (intro mergeGroups_keeps_target [OF d name])
  next
    case False
    then have small: "length (folderGroup (bn_title f) (bn_children root)) \<le> 1"
      by (simp add: grp_def)
    have "folderGroup (bn_title f) (mergedChildren root) = grp"
      unfolding mergedChildren_def grp_def
      by (rule mergeGroups_small_group [OF d small])
    with k have "hd (oldestFirst grp) \<in> set (mergedChildren root)"
      by (auto simp: folderGroup_def)
    then show ?thesis by simp
  qed
  show "Remove (bn_id f) \<in> set (mergeCalls root) \<and>
        bn_id f \<notin> set (map bn_id (mergedChildren root))"
    if neq: "bn_id f \<noteq> bn_id (hd (oldestFirst grp))"
  proof -
    have "f \<noteq> hd (oldestFirst grp)" using neq by auto
    with fg k have "length grp > 1"
      by (cases grp; cases "tl grp") auto
    from mergeGroups_removes [OF d name, where g = f and calls = "[]"] this fg neq
    show ?thesis by (simp add: grp_def mergedChildren_def mergeCalls_def)
  qed
qed

subsection \<open>The code against the words of the specification\<close>

lemma specMergedFolder_eq:
  "specMergedFolder target source =
     withChildren target
       (specChildrenFrom [] (bn_children target) (bn_children source)
        @ filter (specIsMoved (bn_children target)) (bn_children source))"
  by (subst specMergedFolder.simps) (simp add: specChildrenFrom_def withEarlier_def)

lemma specMergeCalls_eq:
  "specMergeCalls target source =
     specCallsFrom (bn_id target) (bn_children target) [] (bn_children source)"
  by (subst specMergeCalls.simps) (simp add: specCallsFrom_def specItemCalls_def withEarlier_def)

lemma specMergedFolder_sel [simp]:
  "bn_id (specMergedFolder t s) = bn_id t"
  "bn_title (specMergedFolder t s) = bn_title t"
  "bn_url (specMergedFolder t s) = bn_url t"
  "bn_dateAdded (specMergedFolder t s) = bn_dateAdded t"
  by (simp_all add: specMergedFolder_eq)

lemma foldl_specMergedFolder_sel [simp]:
  "bn_id (foldl specMergedFolder t ss) = bn_id t"
  "bn_title (foldl specMergedFolder t ss) = bn_title t"
  "bn_url (foldl specMergedFolder t ss) = bn_url t"
  "bn_dateAdded (foldl specMergedFolder t ss) = bn_dateAdded t"
  by (induction ss arbitrary: t) simp_all

lemma isFolder_foldl [simp]: "isFolder (foldl specMergedFolder t ss) = isFolder t"
  by (simp add: isFolder_def)

lemma sameTitleFolder_iff: "sameTitleFolder x c \<longleftrightarrow> isFolder c \<and> bn_title c = bn_title x"
  by (simp add: sameTitleFolder_def isFolder_def)

lemma find_sameTitleFolder:
  "List.find (sameTitleFolder x) ts =
     (if folderGroup (bn_title x) ts = [] then None else Some (hd (folderGroup (bn_title x) ts)))"
  by (induction ts) (auto simp: sameTitleFolder_iff folderGroup_def)

lemma folderGroup_Nil_iff:
  "folderGroup name ts = [] \<longleftrightarrow> name \<notin> set (map bn_title (filter isFolder ts))"
  by (induction ts) (auto simp: folderGroup_def)

lemma specIsMoved_eq: "specIsMoved ts x = isNewIn ts x"
  by (auto simp: specIsMoved_def isNewIn_def existsInTarget_iff find_sameTitleFolder
      folderGroup_Nil_iff isFolder_def)

lemma specChildrenFrom_simps [simp]:
  "specChildrenFrom front [] ss = []"
  "specChildrenFrom front (c # ts) ss =
     (if isFolder c \<and> folderGroup (bn_title c) front = []
      then foldl specMergedFolder c (folderGroup (bn_title c) ss) else c)
     # specChildrenFrom (front @ [c]) ts ss"
  by (simp_all add: specChildrenFrom_def)

lemma specChildrenFrom_Nil [simp]: "specChildrenFrom front ts [] = ts"
  by (induction ts arbitrary: front) (simp_all add: folderGroup_def)

lemma specChildrenFrom_shape [simp]:
  "map bn_id (specChildrenFrom front ts ss) = map bn_id ts"
  "map bn_title (specChildrenFrom front ts ss) = map bn_title ts"
  "map bn_url (specChildrenFrom front ts ss) = map bn_url ts"
  by (induction ts arbitrary: front) simp_all

lemma folderGroup_simps [simp]:
  "folderGroup name [] = []"
  "folderGroup name (c # ts) =
     (if isFolder c \<and> bn_title c = name then c # folderGroup name ts else folderGroup name ts)"
  by (simp_all add: folderGroup_def)

lemma folderGroup_append [simp]:
  "folderGroup name (xs @ ys) = folderGroup name xs @ folderGroup name ys"
  by (simp add: folderGroup_def)

text \<open>The folder that \<open>find\<close> returns among the children merged so far.\<close>

lemma find_in_specChildrenFrom:
  "folderGroup (bn_title x) front = [] \<Longrightarrow>
   List.find (sameTitleFolder x) (specChildrenFrom front ts handled) =
     (if folderGroup (bn_title x) ts = [] then None
      else Some (foldl specMergedFolder (hd (folderGroup (bn_title x) ts))
                   (folderGroup (bn_title x) handled)))"
proof (induction ts arbitrary: front)
  case Nil
  then show ?case by simp
next
  case (Cons c ts)
  show ?case
  proof (cases "isFolder c \<and> bn_title c = bn_title x")
    case True
    with Cons.prems show ?thesis
      by (simp add: sameTitleFolder_iff)
  next
    case False
    then have "folderGroup (bn_title x) (front @ [c]) = []"
      using Cons.prems by simp
    from Cons.IH [OF this] False show ?thesis
      by (auto simp: sameTitleFolder_iff)
  qed
qed

lemma specChildrenFrom_later:
  "isFolder x \<Longrightarrow> folderGroup (bn_title x) front \<noteq> [] \<Longrightarrow>
   specChildrenFrom front ts (handled @ [x]) = specChildrenFrom front ts handled"
  by (induction ts arbitrary: front) auto

lemma specChildrenFrom_unmatched:
  "\<not> isFolder x \<or> folderGroup (bn_title x) ts = [] \<Longrightarrow>
   specChildrenFrom front ts (handled @ [x]) = specChildrenFrom front ts handled"
proof (induction ts arbitrary: front)
  case Nil
  then show ?case by simp
next
  case (Cons c ts)
  from Cons.prems have p: "\<not> isFolder x \<or> folderGroup (bn_title x) ts = []"
    by (auto split: if_splits)
  from Cons.prems have q: "\<not> (isFolder x \<and> isFolder c \<and> bn_title x = bn_title c)"
    by (auto split: if_splits)
  show ?case
    using Cons.IH [OF p, of "front @ [c]"] q by auto
qed

lemma specChildrenFrom_merged:
  "isFolder x \<Longrightarrow> folderGroup (bn_title x) front = [] \<Longrightarrow>
   List.find (sameTitleFolder x) (specChildrenFrom front ts handled) = Some e \<Longrightarrow>
   updateFirst (sameTitleFolder x) (\<lambda>_. specMergedFolder e x) (specChildrenFrom front ts handled) =
     specChildrenFrom front ts (handled @ [x])"
proof (induction ts arbitrary: front)
  case Nil
  then show ?case by simp
next
  case (Cons c ts)
  let ?h = "if isFolder c \<and> folderGroup (bn_title c) front = []
            then foldl specMergedFolder c (folderGroup (bn_title c) handled) else c"
  have st: "sameTitleFolder x ?h \<longleftrightarrow> isFolder c \<and> bn_title c = bn_title x"
    by (simp add: sameTitleFolder_iff)
  show ?case
  proof (cases "isFolder c \<and> bn_title c = bn_title x")
    case True
    then have l: "folderGroup (bn_title x) (front @ [c]) \<noteq> []"
      by simp
    from True Cons.prems(2) have h: "?h = foldl specMergedFolder c (folderGroup (bn_title x) handled)"
      by simp
    from Cons.prems(3) st True have e: "e = ?h"
      by simp
    show ?thesis
      using True Cons.prems(1,2) st specChildrenFrom_later [OF Cons.prems(1) l, of ts "handled"]
      unfolding specChildrenFrom_simps e h
      by simp
  next
    case False
    then have n: "folderGroup (bn_title x) (front @ [c]) = []"
      using Cons.prems by simp
    have f: "List.find (sameTitleFolder x) (specChildrenFrom (front @ [c]) ts handled) = Some e"
      using Cons.prems(3) st False by simp
    have k: "folderGroup (bn_title c) (handled @ [x]) = folderGroup (bn_title c) handled"
      if "isFolder c"
      using that False by auto
    show ?thesis
      using Cons.IH [OF Cons.prems(1) n f] st False k
      unfolding specChildrenFrom_simps
      by auto
  qed
qed


lemma specCallsFrom_simps [simp]:
  "specCallsFrom tid ts0 handled [] = []"
  "specCallsFrom tid ts0 handled (x # xs) =
     specItemCalls tid ts0 (handled, x) @ specCallsFrom tid ts0 (handled @ [x]) xs"
  by (simp_all add: specCallsFrom_def)

lemma specIsMoved_specChildrenFrom [simp]:
  "specIsMoved (specChildrenFrom front ts handled) x = specIsMoved ts x"
  unfolding specIsMoved_eq by (rule isNewIn_shape) simp_all

lemma existsInTarget_specChildrenFrom [simp]:
  "existsInTarget (specChildrenFrom front ts handled) x = existsInTarget ts x"
  by (simp add: existsInTarget_iff)

text \<open>The loop, started after the items \<open>handled\<close> of the source were handled, does what the specification says.\<close>

lemma mergeLoop_spec:
  "ts = specChildrenFrom [] ts0 handled \<Longrightarrow>
   mergeLoop tid ss ts =
     (specChildrenFrom [] ts0 (handled @ ss), filter (specIsMoved ts0) ss,
      specCallsFrom tid ts0 handled ss)"
proof (induction tid ss ts arbitrary: ts0 "handled" rule: mergeLoop.induct)
  case (1 tid ts)
  then show ?case by simp
next
  case (2 tid s rest ts)
  note ts = \<open>ts = specChildrenFrom [] ts0 handled\<close>
  show ?case
  proof (cases "bn_url s \<noteq> []")
    case True
    then have nf: "\<not> isFolder s" by (simp add: isFolder_def)
    have same: "ts = specChildrenFrom [] ts0 (handled @ [s])"
      unfolding ts using nf by (simp add: specChildrenFrom_unmatched)
    show ?thesis
    proof (cases "existsInTarget ts s")
      case ex: True
      have m: "\<not> specIsMoved ts0 s"
        using ex nf unfolding ts by (simp add: specIsMoved_def existsInTarget_iff)
      have c: "specItemCalls tid ts0 (handled, s) = [Remove (bn_id s)]"
        using ex nf unfolding ts by (simp add: specItemCalls_def existsInTarget_iff)
      from 2(2) [OF True _ same] ex have
        "mergeLoop tid rest ts =
           (specChildrenFrom [] ts0 ((handled @ [s]) @ rest), filter (specIsMoved ts0) rest,
            specCallsFrom tid ts0 (handled @ [s]) rest)"
        by simp
      with True ex m c show ?thesis by simp
    next
      case nex: False
      have m: "specIsMoved ts0 s"
        using nex nf unfolding ts by (simp add: specIsMoved_def existsInTarget_iff)
      have c: "specItemCalls tid ts0 (handled, s) = [Move (bn_id s) tid]"
        using nex nf unfolding ts by (simp add: specItemCalls_def existsInTarget_iff)
      from 2(1) [OF True nex same] have
        "mergeLoop tid rest ts =
           (specChildrenFrom [] ts0 ((handled @ [s]) @ rest), filter (specIsMoved ts0) rest,
            specCallsFrom tid ts0 (handled @ [s]) rest)" .
      with True nex m c show ?thesis by simp
    qed
  next
    case False
    then have f: "isFolder s" by (simp add: isFolder_def)
    have fnd: "List.find (sameTitleFolder s) ts =
       (if folderGroup (bn_title s) ts0 = [] then None
        else Some (foldl specMergedFolder (hd (folderGroup (bn_title s) ts0))
                     (folderGroup (bn_title s) handled)))"
      unfolding ts by (rule find_in_specChildrenFrom) simp
    show ?thesis
    proof (cases "List.find (sameTitleFolder s) ts")
      case None
      with fnd have g: "folderGroup (bn_title s) ts0 = []"
        by (simp split: if_splits)
      have same: "ts = specChildrenFrom [] ts0 (handled @ [s])"
        unfolding ts using g by (simp add: specChildrenFrom_unmatched)
      have m: "specIsMoved ts0 s"
        using g f by (simp add: specIsMoved_def folderGroup_Nil_iff)
      have c: "specItemCalls tid ts0 (handled, s) = [Move (bn_id s) tid]"
        using g f by (simp add: specItemCalls_def folderGroup_Nil_iff)
      from 2(3) [OF False None same] have
        "mergeLoop tid rest ts =
           (specChildrenFrom [] ts0 ((handled @ [s]) @ rest), filter (specIsMoved ts0) rest,
            specCallsFrom tid ts0 (handled @ [s]) rest)" .
      with False None m c show ?thesis by simp
    next
      case (Some e)
      with fnd have g: "folderGroup (bn_title s) ts0 \<noteq> []"
        and e: "e = foldl specMergedFolder (hd (folderGroup (bn_title s) ts0))
                     (folderGroup (bn_title s) handled)"
        by (simp_all split: if_splits)
      let ?r = "mergeLoop (bn_id e) (bn_children s) (bn_children e)"
      let ?m = "withChildren e (fst ?r @ fst (snd ?r))"
      let ?ts1 = "updateFirst (sameTitleFolder s) (\<lambda>_. ?m) ts"
      have sub: "?r =
          (specChildrenFrom [] (bn_children e) (bn_children s),
           filter (specIsMoved (bn_children e)) (bn_children s),
           specCallsFrom (bn_id e) (bn_children e) [] (bn_children s))"
        using 2(4) [OF False Some, of "bn_children e" "[]"] by simp
      have merged: "?m = specMergedFolder e s"
        unfolding sub specMergedFolder_eq by simp
      have calls: "snd (snd ?r) = specMergeCalls e s"
        unfolding sub specMergeCalls_eq by simp
      have ts1: "?ts1 = specChildrenFrom [] ts0 (handled @ [s])"
        unfolding merged using Some unfolding ts
        by (intro specChildrenFrom_merged f) simp_all
      have rest: "mergeLoop tid rest ?ts1 =
           (specChildrenFrom [] ts0 ((handled @ [s]) @ rest), filter (specIsMoved ts0) rest,
            specCallsFrom tid ts0 (handled @ [s]) rest)"
        using 2(5) [of e ?r "fst ?r" "snd ?r" "fst (snd ?r)" "snd (snd ?r)" ?m ts0 "handled @ [s]"]
          False Some ts1
        by simp
      have m: "\<not> specIsMoved ts0 s"
        using g f by (simp add: specIsMoved_def folderGroup_Nil_iff)
      have c: "specItemCalls tid ts0 (handled, s) = specMergeCalls e s @ [Remove (bn_id s)]"
        using g f by (simp add: specItemCalls_def folderGroup_Nil_iff e)
      show ?thesis
        using False Some m c calls rest by (simp add: split_beta Let_def)
    qed
  qed
qed

lemma mergeFolderContentsRecursive_spec:
  "mergeFolderContentsRecursive source target =
     (specMergedFolder target source, specMergeCalls target source)"
  unfolding mergeFolderContentsRecursive_def
    mergeLoop_spec [of "bn_children target" "bn_children target" "[]" "bn_id target" "bn_children source", simplified]
    specMergedFolder_eq specMergeCalls_eq
  by simp


text \<open>A group of duplicates, and the outer loop.\<close>

lemma mergeSources_spec:
  "mergeSources (foldl specMergedFolder t0 handled) ss =
     (foldl specMergedFolder t0 (handled @ ss),
      concat (map (\<lambda>(earlier, source).
                specMergeCalls (foldl specMergedFolder t0 earlier) source @ [Remove (bn_id source)])
              (withEarlierFrom handled ss)))"
proof (induction ss arbitrary: "handled")
  case Nil
  then show ?case by simp
next
  case (Cons s ss)
  from Cons [of "handled @ [s]"] show ?case
    by (simp add: mergeFolderContentsRecursive_spec)
qed

lemma mergeSources_specGroup:
  "mergeSources (specKept name cs) (specOthers name cs) =
     (foldl specMergedFolder (specKept name cs) (specOthers name cs), specGroupCalls name cs)"
  using mergeSources_spec [of "specKept name cs" "[]" "specOthers name cs"]
  by (simp add: specGroupCalls_def withEarlier_def)

lemma concat_map_concat_map:
  "concat (map f (concat (map g xs))) = concat (map (\<lambda>x. concat (map f (g x))) xs)"
  by (induction xs) simp_all

lemma filter_concat_map_list:
  "(\<And>c. c \<in> set cs \<Longrightarrow> filter P (f c) = (if Q c then [c] else [])) \<Longrightarrow>
   filter P (concat (map f cs)) = filter Q cs"
  by (induction cs) auto

lemma specKept_props:
  assumes "c \<in> set cs" "isFolder c"
  shows "isFolder (specKept (bn_title c) cs)"
    and "bn_title (specKept (bn_title c) cs) = bn_title c"
    and "specKept (bn_title c) cs \<in> set cs"
proof -
  from assms have "folderGroup (bn_title c) cs \<noteq> []"
    by (auto simp: folderGroup_def filter_empty_conv)
  from oldestFirst_props(1) [OF this]
  have "specKept (bn_title c) cs \<in> set (folderGroup (bn_title c) cs)"
    by (simp add: specKept_def)
  then show "isFolder (specKept (bn_title c) cs)"
    and "bn_title (specKept (bn_title c) cs) = bn_title c"
    and "specKept (bn_title c) cs \<in> set cs"
    by (simp_all add: folderGroup_def)
qed

lemma folderGroup_specChildrenFor:
  assumes "name \<notin> D"
  shows "folderGroup name (specChildrenFor D cs) = folderGroup name cs"
  unfolding folderGroup_def specChildrenFor_def
proof (rule filter_concat_map_list)
  fix c assume "c \<in> set cs"
  with assms specKept_props(1,2) [of c cs]
  show "filter (\<lambda>c. isFolder c \<and> bn_title c = name)
          (if isFolder c \<and> bn_title c \<in> D
           then if bn_id c = bn_id (specKept (bn_title c) cs)
                then [foldl specMergedFolder (specKept (bn_title c) cs)
                       (specOthers (bn_title c) cs)]
                else []
           else [c]) =
         (if isFolder c \<and> bn_title c = name then [c] else [])"
    by auto
qed

lemma small_group:
  assumes "length (folderGroup name cs) \<le> 1"
  shows "specOthers name cs = []"
    and "c \<in> set cs \<Longrightarrow> isFolder c \<Longrightarrow> bn_title c = name \<Longrightarrow> specKept name cs = c"
proof -
  from assms have l: "length (oldestFirst (folderGroup name cs)) \<le> 1"
    by (simp add: oldestFirst_def)
  then show "specOthers name cs = []"
    unfolding specOthers_def by (cases "oldestFirst (folderGroup name cs)") simp_all
  assume c: "c \<in> set cs" "isFolder c" "bn_title c = name"
  then have "c \<in> set (folderGroup name cs)" by (simp add: folderGroup_def)
  with assms have "folderGroup name cs = [c]"
    by (cases "folderGroup name cs") auto
  then show "specKept name cs = c"
    by (simp add: specKept_def oldestFirst_def)
qed

lemma specChildrenFor_insert_small:
  assumes "length (folderGroup name cs) \<le> 1"
  shows "specChildrenFor (insert name D) cs = specChildrenFor D cs"
  unfolding specChildrenFor_def
proof (intro arg_cong [where f = concat] map_cong refl)
  fix c assume c: "c \<in> set cs"
  show "(if isFolder c \<and> bn_title c \<in> insert name D
         then (if bn_id c = bn_id (specKept (bn_title c) cs)
              then [foldl specMergedFolder (specKept (bn_title c) cs) (specOthers (bn_title c) cs)]
              else [])
         else [c]) =
        (if isFolder c \<and> bn_title c \<in> D
         then (if bn_id c = bn_id (specKept (bn_title c) cs)
              then [foldl specMergedFolder (specKept (bn_title c) cs) (specOthers (bn_title c) cs)]
              else [])
         else [c])"
  proof (cases "isFolder c \<and> bn_title c = name \<and> name \<notin> D")
    case True
    with small_group [OF assms] c show ?thesis by simp
  next
    case False
    then show ?thesis by auto
  qed
qed

lemma specGroupCalls_folderGroup:
  "folderGroup name cs' = folderGroup name cs \<Longrightarrow>
   specGroupCalls name cs' = specGroupCalls name cs"
  by (simp add: specGroupCalls_def specKept_def specOthers_def)

lemma mergeGroup_spec:
  assumes n: "name \<notin> D"
  shows "mergeGroup name (specChildrenFor D cs, calls) =
           (specChildrenFor (insert name D) cs, calls @ specGroupCalls name cs)"
proof (cases "length (folderGroup name cs) > 1")
  case False
  then have s: "length (folderGroup name cs) \<le> 1" by simp
  have "specGroupCalls name cs = []"
    by (simp add: specGroupCalls_def small_group(1) [OF s] withEarlier_def)
  then show ?thesis
    using s by (simp add: mergeGroup_small folderGroup_specChildrenFor [OF n]
        specChildrenFor_insert_small)
next
  case True
  let ?tgt = "specKept name cs"
  let ?merged = "foldl specMergedFolder ?tgt (specOthers name cs)"
  let ?f = "\<lambda>c. if isFolder c \<and> bn_title c = name
                 then (if bn_id c = bn_id ?tgt then [?merged] else []) else [c]"
  let ?g = "\<lambda>D child. if isFolder child \<and> bn_title child \<in> D
        then (if bn_id child = bn_id (specKept (bn_title child) cs)
              then [foldl specMergedFolder (specKept (bn_title child) cs)
                      (specOthers (bn_title child) cs)]
              else [])
        else [child]"
  have step: "mergeGroup name (specChildrenFor D cs, calls) =
          (concat (map ?f (specChildrenFor D cs)), calls @ specGroupCalls name cs)"
    using True
    by (simp add: mergeGroup_def Let_def folderGroup_specChildrenFor [OF n]
        mergeSources_specGroup [unfolded specKept_def specOthers_def]
        specKept_def specOthers_def
        specGroupCalls_folderGroup [OF folderGroup_specChildrenFor [OF n]] cong: if_cong)
  have "concat (map ?f (?g D c)) = ?g (insert name D) c" if "c \<in> set cs" for c
    using n specKept_props(1,2) [OF that] by auto
  then have "concat (map ?f (specChildrenFor D cs)) = specChildrenFor (insert name D) cs"
    unfolding specChildrenFor_def concat_map_concat_map
    by (intro arg_cong [where f = concat] map_cong refl)
  with step show ?thesis by simp
qed

lemma mergeGroups_spec:
  "distinct ns \<Longrightarrow> set ns \<inter> D = {} \<Longrightarrow>
   mergeGroups ns (specChildrenFor D cs, calls) =
     (specChildrenFor (D \<union> set ns) cs,
      calls @ concat (map (\<lambda>name. specGroupCalls name cs) ns))"
proof (induction ns arbitrary: D calls)
  case Nil
  then show ?case by simp
next
  case (Cons n ns)
  then have n: "n \<notin> D" and d: "distinct ns" and i: "set ns \<inter> insert n D = {}"
    by auto
  show ?case
    using Cons.IH [OF d i, of "calls @ specGroupCalls n cs"]
    by (simp add: mergeGroup_spec [OF n])
qed

lemma specChildrenFor_empty: "specChildrenFor {} cs = cs"
  by (induction cs) (simp_all add: specChildrenFor_def)

lemma specRootChildren_eq:
  "specRootChildren root = specChildrenFor (set (folderNames root)) (bn_children root)"
  unfolding specRootChildren_def specChildrenFor_def folderNames_def
  by (intro arg_cong [where f = concat] map_cong refl) auto

lemma mergeGroups_root:
  "mergeGroups (folderNames root) (bn_children root, []) =
     (specRootChildren root, specRootCalls root)"
  using mergeGroups_spec [of "folderNames root" "{}" "bn_children root" "[]"]
  by (simp add: specChildrenFor_empty specRootChildren_eq specRootCalls_def specGroupCalls_def
      folderNames_def distinct_firstOccurrences)

lemma mergeDuplicateSpaceFolders_spec:
  "mergedChildren root = specRootChildren root"
  "mergeCalls root = specRootCalls root"
  by (simp_all add: mergedChildren_def mergeCalls_def mergeGroups_root)

text \<open>
  Claim C8, as amended. The startup merge does what the specification says of it, with
  every test made against the children of the target as they were read when the merge of
  one folder into it began. The children of the BarCat folder afterwards and the calls
  issued are \<open>specRootChildren\<close> and \<open>specRootCalls\<close>: of every group of folders sharing a
  title the folder with the oldest creation time is kept, the others are merged into it,
  oldest first, and then removed. The merge of one folder into a target leaves the
  target as \<open>specMergedFolder\<close> and issues the calls \<open>specMergeCalls\<close>: a bookmark whose
  URL one of the target's children has is removed, a bookmark with another URL is moved
  to the end of the target, a nested folder whose title one of the target's folders has
  is merged into that folder in the same way and then removed, a nested folder with
  another title is moved whole. Hence, for a BarCat folder whose children have pairwise
  different ids: the root-level folders end with pairwise different titles; every folder
  that is not the oldest of its title is removed and gone from the root; no bookmark URL
  below the root is lost or invented; what is not a folder at the root is untouched. And
  in every merge the target's own children keep their place, id, title and URL, and
  every child of the source is moved or removed, so the source is left empty.
\<close>

theorem merge_duplicate_space_folders:
  "mergeDuplicateSpaceFolders (Some root) =
     (Some (withChildren root (specRootChildren root)), specRootCalls root) \<and>
   mergedChildren root = specRootChildren root \<and>
   mergeCalls root = specRootCalls root \<and>
   mergeFolderContentsRecursive source target =
     (specMergedFolder target source, specMergeCalls target source) \<and>
   (distinct (map bn_id (bn_children root)) \<longrightarrow>
      distinct (map bn_title (filter isFolder (mergedChildren root))) \<and>
      urlsOf (mergedChildren root) = urlsOf (bn_children root) \<and>
      filter (\<lambda>c. \<not> isFolder c) (mergedChildren root) =
        filter (\<lambda>c. \<not> isFolder c) (bn_children root) \<and>
      (\<forall>f\<in>set (bn_children root). isFolder f \<longrightarrow>
         hd (oldestFirst (folderGroup (bn_title f) (bn_children root)))
           \<in> set (folderGroup (bn_title f) (bn_children root)) \<and>
         (\<forall>h\<in>set (folderGroup (bn_title f) (bn_children root)).
            bn_dateAdded (hd (oldestFirst (folderGroup (bn_title f) (bn_children root))))
              \<le> bn_dateAdded h) \<and>
         bn_id (hd (oldestFirst (folderGroup (bn_title f) (bn_children root))))
           \<in> set (map bn_id (mergedChildren root)) \<and>
         (bn_id f \<noteq> bn_id (hd (oldestFirst (folderGroup (bn_title f) (bn_children root)))) \<longrightarrow>
            Remove (bn_id f) \<in> set (mergeCalls root) \<and>
            bn_id f \<notin> set (map bn_id (mergedChildren root))))) \<and>
   fst (snd (mergeLoop tid ss ts)) = filter (isNewIn ts) ss \<and>
   map bn_id (fst (mergeLoop tid ss ts)) = map bn_id ts \<and>
   map bn_title (fst (mergeLoop tid ss ts)) = map bn_title ts \<and>
   map bn_url (fst (mergeLoop tid ss ts)) = map bn_url ts \<and>
   (\<forall>x\<in>set ss. (if isNewIn ts x then Move (bn_id x) tid else Remove (bn_id x))
       \<in> set (snd (snd (mergeLoop tid ss ts)))) \<and>
   urlsOf (fst (mergeLoop tid ss ts) @ fst (snd (mergeLoop tid ss ts))) = urlsOf ts \<union> urlsOf ss"
proof -
  have whole: "mergeDuplicateSpaceFolders (Some root) =
        (Some (withChildren root (specRootChildren root)), specRootCalls root)"
    by (simp add: mergeDuplicateSpaceFolders_def mergeDuplicateSpaceFolders_spec)
  have urls: "urlsOf (mergedChildren root) = urlsOf (bn_children root)"
    and rest: "filter (\<lambda>c. \<not> isFolder c) (mergedChildren root) =
        filter (\<lambda>c. \<not> isFolder c) (bn_children root)"
    if "distinct (map bn_id (bn_children root))"
    using mergeGroups_invariant [OF that, where ns = "folderNames root" and calls = "[]"]
    by (simp_all add: mergedChildren_def)
  show ?thesis
    using whole mergeDuplicateSpaceFolders_spec [of root]
      mergeFolderContentsRecursive_spec [of source target]
      urls rest merged_titles_distinct [of root] merged_keeps_oldest [of root]
      mergeLoop_moved [of tid ss ts] mergeLoop_keeps_shape [of tid ss ts]
      mergeLoop_calls [of _ ss ts tid] mergeLoop_urls [of tid ss ts]
    by (intro conjI impI ballI) blast+
qed

text \<open>
  The claim as stated removes a bookmark whose URL already exists in the target. Here the
  younger of two Work folders holds the same URL twice and the older is empty: bookmark
  \<open>''21''\<close> is moved into the target, and bookmark \<open>''22''\<close>, whose URL the target then
  has, is moved as well, not removed. The kept folder ends with two bookmarks of one URL.
\<close>

theorem merge_moves_url_twice_counterexample:
  "mergeDuplicateSpaceFolders (Some twiceInSource) =
     (Some (folder ''1'' ''BarCat'' 0
        [folder ''10'' ''Work'' 100
           [bookmark ''21'' ''https://a.example/'', bookmark ''22'' ''https://a.example/'']]),
      [Move ''21'' ''10'', Move ''22'' ''10'', Remove ''20''])"
  by code_simp

theorem merge_duplicate_space_folders_witness:
  "distinct (map bn_id (bn_children threeWork)) \<and>
   map bn_id (bn_children threeWork) = [''20'', ''30'', ''10'', ''40''] \<and>
   bn_id (hd (oldestFirst (folderGroup ''Work'' (bn_children threeWork)))) = ''10'' \<and>
   mergeDuplicateSpaceFolders (Some threeWork) =
     (Some (folder ''1'' ''BarCat'' 0
        [folder ''30'' ''Home'' 50 [bookmark ''31'' ''https://h.example/''],
         folder ''10'' ''Work'' 100
           [bookmark ''11'' ''https://a.example/'',
            folder ''12'' ''Docs'' 110
              [bookmark ''13'' ''https://d.example/1'', bookmark ''24'' ''https://d.example/2''],
            bookmark ''22'' ''https://b.example/'',
            folder ''41'' ''Media'' 310 [bookmark ''42'' ''https://m.example/'']]]),
      [Remove ''21'', Move ''22'' ''10'', Move ''24'' ''12'', Remove ''23'', Remove ''20'',
       Move ''41'' ''10'', Remove ''40'']) \<and>
   mergeFolderContentsRecursive
     (folder ''23'' ''Docs'' 210 [bookmark ''24'' ''https://d.example/2''])
     (folder ''12'' ''Docs'' 110 [bookmark ''13'' ''https://d.example/1'']) =
     (folder ''12'' ''Docs'' 110
        [bookmark ''13'' ''https://d.example/1'', bookmark ''24'' ''https://d.example/2''],
      [Move ''24'' ''12'']) \<and>
   map bn_title (filter isFolder (mergedChildren threeWork)) = [''Home'', ''Work''] \<and>
   distinct (map bn_title (filter isFolder (mergedChildren threeWork))) \<and>
   urlsOf (mergedChildren threeWork) = urlsOf (bn_children threeWork) \<and>
   ''10'' \<in> set (map bn_id (mergedChildren threeWork)) \<and>
   Remove ''20'' \<in> set (mergeCalls threeWork) \<and>
   ''20'' \<notin> set (map bn_id (mergedChildren threeWork)) \<and>
   fst (snd (mergeLoop ''10''
       [bookmark ''21'' ''https://a.example/'', bookmark ''22'' ''https://b.example/'']
       [bookmark ''11'' ''https://a.example/''])) = [bookmark ''22'' ''https://b.example/''] \<and>
   Remove ''21'' \<in> set (snd (snd (mergeLoop ''10''
       [bookmark ''21'' ''https://a.example/'', bookmark ''22'' ''https://b.example/'']
       [bookmark ''11'' ''https://a.example/'']))) \<and>
   Move ''22'' ''10'' \<in> set (snd (snd (mergeLoop ''10''
       [bookmark ''21'' ''https://a.example/'', bookmark ''22'' ''https://b.example/'']
       [bookmark ''11'' ''https://a.example/''])))"
proof -
  let ?first = "folder ''20'' ''Work'' 200
          [bookmark ''21'' ''https://a.example/'', bookmark ''22'' ''https://b.example/'',
           folder ''23'' ''Docs'' 210 [bookmark ''24'' ''https://d.example/2'']]"
  let ?ss = "[bookmark ''21'' ''https://a.example/'', bookmark ''22'' ''https://b.example/'']"
  let ?ts = "[bookmark ''11'' ''https://a.example/'']"
  let ?src = "folder ''23'' ''Docs'' 210 [bookmark ''24'' ''https://d.example/2'']"
  let ?tgt = "folder ''12'' ''Docs'' 110 [bookmark ''13'' ''https://d.example/1'']"
  have d: "distinct (map bn_id (bn_children threeWork))"
    by (simp add: threeWork_def folder_def)
  have i: "map bn_id (bn_children threeWork) = [''20'', ''30'', ''10'', ''40'']"
    by (simp add: threeWork_def folder_def)
  have f: "?first \<in> set (bn_children threeWork)" "isFolder ?first"
    "bn_title ?first = ''Work''" "bn_id ?first = ''20''"
    by (simp_all add: threeWork_def folder_def isFolder_def)
  have k: "bn_id (hd (oldestFirst (folderGroup ''Work'' (bn_children threeWork)))) = ''10''"
    by code_simp
  have sc: "withChildren threeWork (specRootChildren threeWork) =
      folder ''1'' ''BarCat'' 0
        [folder ''30'' ''Home'' 50 [bookmark ''31'' ''https://h.example/''],
         folder ''10'' ''Work'' 100
           [bookmark ''11'' ''https://a.example/'',
            folder ''12'' ''Docs'' 110
              [bookmark ''13'' ''https://d.example/1'', bookmark ''24'' ''https://d.example/2''],
            bookmark ''22'' ''https://b.example/'',
            folder ''41'' ''Media'' 310 [bookmark ''42'' ''https://m.example/'']]]"
    by code_simp
  have sk: "specRootCalls threeWork =
      [Remove ''21'', Move ''22'' ''10'', Move ''24'' ''12'', Remove ''23'', Remove ''20'',
       Move ''41'' ''10'', Remove ''40'']"
    by code_simp
  have sm: "specMergedFolder ?tgt ?src =
      folder ''12'' ''Docs'' 110
        [bookmark ''13'' ''https://d.example/1'', bookmark ''24'' ''https://d.example/2'']"
    "specMergeCalls ?tgt ?src = [Move ''24'' ''12'']"
    by code_simp+
  have n: "filter (isNewIn ?ts) ?ss = [bookmark ''22'' ''https://b.example/'']"
    "\<not> isNewIn ?ts (bookmark ''21'' ''https://a.example/'')"
    "isNewIn ?ts (bookmark ''22'' ''https://b.example/'')"
    by (simp_all add: isNewIn_def existsInTarget_def bookmark_def)
  note main = merge_duplicate_space_folders [of threeWork ?src ?tgt "''10''" ?ss ?ts]
  from main have w: "mergeDuplicateSpaceFolders (Some threeWork) =
      (Some (withChildren threeWork (specRootChildren threeWork)), specRootCalls threeWork)"
    and r: "mergeFolderContentsRecursive ?src ?tgt =
      (specMergedFolder ?tgt ?src, specMergeCalls ?tgt ?src)"
    and mc: "mergedChildren threeWork = specRootChildren threeWork"
    by blast+
  have t: "map bn_title (filter isFolder (mergedChildren threeWork)) = [''Home'', ''Work'']"
    unfolding mc by code_simp
  from main d have a: "distinct (map bn_title (filter isFolder (mergedChildren threeWork)))"
    and b: "urlsOf (mergedChildren threeWork) = urlsOf (bn_children threeWork)"
    by blast+
  from main d f(1,2) have
    "bn_id (hd (oldestFirst (folderGroup (bn_title ?first) (bn_children threeWork))))
       \<in> set (map bn_id (mergedChildren threeWork)) \<and>
     (bn_id ?first \<noteq> bn_id (hd (oldestFirst (folderGroup (bn_title ?first) (bn_children threeWork)))) \<longrightarrow>
        Remove (bn_id ?first) \<in> set (mergeCalls threeWork) \<and>
        bn_id ?first \<notin> set (map bn_id (mergedChildren threeWork)))"
    by blast
  then have c: "''10'' \<in> set (map bn_id (mergedChildren threeWork))"
    "Remove ''20'' \<in> set (mergeCalls threeWork)"
    "''20'' \<notin> set (map bn_id (mergedChildren threeWork))"
    unfolding f(3,4) k by simp_all
  from main have m: "fst (snd (mergeLoop ''10'' ?ss ?ts)) = filter (isNewIn ?ts) ?ss"
    and "\<forall>x\<in>set ?ss. (if isNewIn ?ts x then Move (bn_id x) ''10'' else Remove (bn_id x))
           \<in> set (snd (snd (mergeLoop ''10'' ?ss ?ts)))"
    by blast+
  then have x: "Remove ''21'' \<in> set (snd (snd (mergeLoop ''10'' ?ss ?ts)))"
    "Move ''22'' ''10'' \<in> set (snd (snd (mergeLoop ''10'' ?ss ?ts)))"
    using n(2,3) by (auto simp: bookmark_def)
  show ?thesis
    using d i k w [unfolded sc sk] r [unfolded sm] t a b c m n(1) x by simp
qed

end
